theory Spec2Isabelle
  imports Main "HOL-Library.Word" "HOL-Library.AList"
begin

unbundle bit_operations_syntax

section \<open>Data model of \<open>MemoryManager\<close> (simulador\_v3.py)\<close>

text \<open>
  The canonical translator is class \<open>MemoryManager\<close> of simulador\_v3.py. Python integers
  are unbounded: virtual addresses, page numbers, offsets and returned values are \<open>int\<close>.
  Frame numbers are always list indices produced by \<open>list.index\<close>, and counters only
  ever grow from 0: both are \<open>nat\<close>. A byte of the backing store is an \<open>8 word\<close>
  (Python's \<open>bytes\<close> hold the integers 0..255, read back with \<open>uint\<close>).
\<close>

type_synonym byte = "8 word"

text \<open>
  Every way a call can fail is a value: the two \<open>sys.exit(1)\<close> of the class
  (short read in \<open>carrega_pagina\<close>, unknown policy in \<open>tratar_page_fault\<close>), the Python
  exceptions of the list and dictionary operations it performs, the exit of
  simulador\_v2.py's \<open>ler_memoria\<close> on an empty frame, and the exit of \<open>main\<close> on a
  command line it refuses.
\<close>

datatype error =
    BackingStoreError
  | AlgoritmoInvalido
  | IndexError
  | KeyError
  | TypeError
  | ValueError
  | OSError
  | QuadroSemDados
  | ArgumentoInvalido

text \<open>A page-table entry is the dictionary \<open>{'quadro': q, 'valido': b}\<close>.\<close>

record pte =
  pte_quadro :: nat
  pte_valido :: bool

text \<open>A TLB entry is the dictionary \<open>{'pagina': p, 'quadro': q}\<close>.\<close>

record tlb_entry =
  tlb_pagina :: int
  tlb_quadro :: nat

text \<open>
  The fields of a \<open>MemoryManager\<close> instance. \<open>uso_recente\<close> is a Python \<open>dict\<close> whose
  iteration order (insertion order of the keys) decides \<open>min\<close>, so it is an association
  list; \<open>page_table\<close> is only looked up and stored by key, so it is a map.
  \<open>backing_store\<close> is the content of the file opened by the constructor; the class only
  seeks and reads it.
\<close>

record memory_manager =
  num_quadros :: int
  algoritmo :: string
  page_table :: "int \<rightharpoonup> pte"
  tlb :: "tlb_entry list"
  quadros :: "int option list"
  physical_memory :: "byte list option list"
  fifo_queue :: "int list"
  uso_recente :: "(int \<times> nat) list"
  tlb_hits :: nat
  page_faults :: nat
  acessos :: nat
  clock :: nat
  backing_store :: "byte list"

text \<open>
  \<open>page_size\<close>, \<open>offset_bits\<close> and \<open>tlb_size\<close> are set once by the constructor to the
  literals 256, 8 and 16 and never assigned again.
\<close>

definition page_size :: nat where
  "page_size = 256"

definition offset_bits :: nat where
  "offset_bits = 8"

definition tlb_size :: nat where
  "tlb_size = 16"

subsection \<open>Construction\<close>

text \<open>\<open>str.upper\<close> on ASCII text: the letters a..z move to A..Z, every other character stays.\<close>

definition upper_char :: "char \<Rightarrow> char" where
  "upper_char c =
     (let n = (of_char c :: nat)
      in if 97 \<le> n \<and> n \<le> 122 then char_of (n - 32) else c)"

definition upper :: "string \<Rightarrow> string" where
  "upper txt = map upper_char txt"

text \<open>
  \<open>MemoryManager.__init__(num_quadros, algoritmo)\<close>, with the content of
  BACKING\_STORE.bin as third argument. \<open>[None] * n\<close> is the empty list for \<open>n \<le> 0\<close>.
  The constructor stores the upper-cased policy name and checks nothing about it.
\<close>

definition MemoryManager_init :: "int \<Rightarrow> string \<Rightarrow> byte list \<Rightarrow> memory_manager" where
  "MemoryManager_init n alg store =
     \<lparr> num_quadros = n,
       algoritmo = upper alg,
       page_table = Map.empty,
       tlb = [],
       quadros = replicate (nat n) None,
       physical_memory = replicate (nat n) None,
       fifo_queue = [],
       uso_recente = [],
       tlb_hits = 0,
       page_faults = 0,
       acessos = 0,
       clock = 0,
       backing_store = store \<rparr>"

text \<open>
  The part of \<open>main\<close> that leads to the constructor call, for a frame count that already
  parsed as an integer: only 128 or 256 frames are accepted, the policy argument is
  upper-cased and must be FIFO or LRU, and only then is the \<open>MemoryManager\<close> built.
\<close>

definition main_init :: "int \<Rightarrow> string \<Rightarrow> byte list \<Rightarrow> error + memory_manager" where
  "main_init num_quadros_arg alg_arg store =
     (if num_quadros_arg \<noteq> 128 \<and> num_quadros_arg \<noteq> 256 then Inl ArgumentoInvalido
      else
        let algoritmo_substituicao = upper alg_arg
        in if algoritmo_substituicao \<notin> set [''FIFO'', ''LRU''] then Inl ArgumentoInvalido
           else Inr (MemoryManager_init num_quadros_arg algoritmo_substituicao store))"

subsection \<open>Backing store\<close>

text \<open>
  \<open>carrega_pagina\<close>: \<open>seek(pagina * page_size)\<close>, \<open>read(page_size)\<close>, and
  \<open>sys.exit(1)\<close> when fewer than \<open>page_size\<close> bytes came back. Seeking to a negative
  position raises.
\<close>

definition carrega_pagina :: "memory_manager \<Rightarrow> int \<Rightarrow> error + byte list" where
  "carrega_pagina s pagina =
     (if pagina * int page_size < 0 then Inl OSError
      else
        let page_data = take page_size (drop (nat (pagina * int page_size)) (backing_store s))
        in if length page_data \<noteq> page_size then Inl BackingStoreError
           else Inr page_data)"

subsection \<open>TLB\<close>

text \<open>The loop of \<open>buscar_na_tlb\<close>: the first entry for the page wins.\<close>

fun buscar_entradas :: "tlb_entry list \<Rightarrow> int \<Rightarrow> nat option" where
  "buscar_entradas [] pagina = None"
| "buscar_entradas (entrada # resto) pagina =
     (if tlb_pagina entrada = pagina then Some (tlb_quadro entrada)
      else buscar_entradas resto pagina)"

definition buscar_na_tlb :: "memory_manager \<Rightarrow> int \<Rightarrow> nat option" where
  "buscar_na_tlb s pagina = buscar_entradas (tlb s) pagina"

text \<open>
  \<open>atualiza_tlb\<close>: \<open>pop(0)\<close> when the list holds \<open>tlb_size\<close> entries or more, then
  \<open>append\<close>. The \<open>pop\<close> is only reached on a non-empty list.
\<close>

definition atualiza_tlb :: "memory_manager \<Rightarrow> int \<Rightarrow> nat \<Rightarrow> memory_manager" where
  "atualiza_tlb s pagina q =
     s\<lparr>tlb := (if length (tlb s) \<ge> tlb_size then tl (tlb s) else tlb s)
               @ [\<lparr>tlb_pagina = pagina, tlb_quadro = q\<rparr>]\<rparr>"

definition remover_da_tlb :: "memory_manager \<Rightarrow> int \<Rightarrow> memory_manager" where
  "remover_da_tlb s pagina =
     s\<lparr>tlb := filter (\<lambda>entrada. tlb_pagina entrada \<noteq> pagina) (tlb s)\<rparr>"

subsection \<open>Reading physical memory\<close>

text \<open>
  \<open>ler_memoria\<close>: \<open>self.physical_memory[quadro][offset]\<close>, then the conversion to a
  signed value. A frame index past the list raises IndexError, a frame still holding
  \<open>None\<close> raises TypeError, and the offset indexes the page as Python does (a negative
  index counts from the end).
\<close>

definition ler_memoria :: "memory_manager \<Rightarrow> nat \<Rightarrow> int \<Rightarrow> error + int" where
  "ler_memoria s q offset =
     (if q \<ge> length (physical_memory s) then Inl IndexError
      else case physical_memory s ! q of
        None \<Rightarrow> Inl TypeError
      | Some page_data \<Rightarrow>
          let n = int (length page_data);
              j = (if offset < 0 then n + offset else offset)
          in if 0 \<le> j \<and> j < n then
               let byte_value = uint (page_data ! nat j)
               in Inr (if byte_value > 127 then byte_value - 256 else byte_value)
             else Inl IndexError)"

text \<open>
  simulador\_v2.py's \<open>ler_memoria\<close> returns the byte as it is stored, and exits on a frame
  that holds no data.
\<close>

definition ler_memoria_v2 :: "memory_manager \<Rightarrow> nat \<Rightarrow> int \<Rightarrow> error + int" where
  "ler_memoria_v2 s q offset =
     (if q \<ge> length (physical_memory s) then Inl IndexError
      else case physical_memory s ! q of
        None \<Rightarrow> Inl QuadroSemDados
      | Some page_data \<Rightarrow>
          let n = int (length page_data);
              j = (if offset < 0 then n + offset else offset)
          in if 0 \<le> j \<and> j < n then Inr (uint (page_data ! nat j))
             else Inl IndexError)"

subsection \<open>Page replacement\<close>

text \<open>\<open>self.quadros.index(None)\<close>: the first free frame, if \<open>None in self.quadros\<close>.\<close>

fun index_None :: "int option list \<Rightarrow> nat option" where
  "index_None [] = None"
| "index_None (x # xs) =
     (case x of None \<Rightarrow> Some 0 | Some _ \<Rightarrow> map_option Suc (index_None xs))"

text \<open>
  \<open>min(self.uso_recente, key=self.uso_recente.get)\<close>: Python's \<open>min\<close> walks the keys in
  the dictionary's order, keeps the first one and replaces it only by a key whose
  timestamp is strictly smaller; on an empty dictionary it raises ValueError.
\<close>

fun min_loop :: "int \<times> nat \<Rightarrow> (int \<times> nat) list \<Rightarrow> int" where
  "min_loop (bk, bt) [] = bk"
| "min_loop (bk, bt) ((k, t) # resto) =
     (if t < bt then min_loop (k, t) resto else min_loop (bk, bt) resto)"

definition min_uso_recente :: "(int \<times> nat) list \<Rightarrow> error + int" where
  "min_uso_recente ur =
     (case ur of [] \<Rightarrow> Inl ValueError | e # resto \<Rightarrow> Inr (min_loop e resto))"

text \<open>
  The tail shared by \<open>substituicao_fifo\<close> and \<open>substituicao_lru\<close> once the victim is
  known: read the victim's frame from the page table, clear its \<open>valido\<close>, drop it from
  the TLB.
\<close>

definition invalida_vitima :: "memory_manager \<Rightarrow> int \<Rightarrow> error + (memory_manager \<times> nat)" where
  "invalida_vitima s pagina_a_substituir =
     (case page_table s pagina_a_substituir of
        None \<Rightarrow> Inl KeyError
      | Some e \<Rightarrow>
          Inr (remover_da_tlb
                 (s\<lparr>page_table := (page_table s)(pagina_a_substituir \<mapsto> e\<lparr>pte_valido := False\<rparr>)\<rparr>)
                 pagina_a_substituir,
               pte_quadro e))"

text \<open>
  \<open>self.physical_memory[quadro] = page_data; self.quadros[quadro] = pagina\<close>: each list
  assignment raises IndexError out of range.
\<close>

definition instala_pagina ::
  "memory_manager \<Rightarrow> nat \<Rightarrow> int \<Rightarrow> byte list \<Rightarrow> error + memory_manager" where
  "instala_pagina s q pagina page_data =
     (if q \<ge> length (physical_memory s) then Inl IndexError
      else if q \<ge> length (quadros s) then Inl IndexError
      else Inr (s\<lparr>physical_memory := (physical_memory s)[q := Some page_data],
                  quadros := (quadros s)[q := Some pagina]\<rparr>))"

definition substituicao_fifo :: "memory_manager \<Rightarrow> int \<Rightarrow> error + (memory_manager \<times> nat)" where
  "substituicao_fifo s pagina_nova =
     (case fifo_queue s of
        [] \<Rightarrow> Inl IndexError
      | pagina_a_substituir # resto \<Rightarrow>
          (case invalida_vitima (s\<lparr>fifo_queue := resto\<rparr>) pagina_a_substituir of
             Inl e \<Rightarrow> Inl e
           | Inr (s1, q) \<Rightarrow>
               (case carrega_pagina s1 pagina_nova of
                  Inl e \<Rightarrow> Inl e
                | Inr page_data \<Rightarrow>
                    (case instala_pagina s1 q pagina_nova page_data of
                       Inl e \<Rightarrow> Inl e
                     | Inr s2 \<Rightarrow>
                         Inr (s2\<lparr>fifo_queue := fifo_queue s2 @ [pagina_nova]\<rparr>, q)))))"

definition substituicao_lru :: "memory_manager \<Rightarrow> int \<Rightarrow> error + (memory_manager \<times> nat)" where
  "substituicao_lru s pagina_nova =
     (case min_uso_recente (uso_recente s) of
        Inl e \<Rightarrow> Inl e
      | Inr pagina_a_substituir \<Rightarrow>
          (case invalida_vitima s pagina_a_substituir of
             Inl e \<Rightarrow> Inl e
           | Inr (s1, q) \<Rightarrow>
               let s1' = s1\<lparr>uso_recente := AList.delete pagina_a_substituir (uso_recente s1)\<rparr>
               in (case carrega_pagina s1' pagina_nova of
                     Inl e \<Rightarrow> Inl e
                   | Inr page_data \<Rightarrow>
                       (case instala_pagina s1' q pagina_nova page_data of
                          Inl e \<Rightarrow> Inl e
                        | Inr s2 \<Rightarrow>
                            Inr (s2\<lparr>uso_recente :=
                                      AList.update pagina_nova (clock s2) (uso_recente s2)\<rparr>, q)))))"

definition tratar_page_fault :: "memory_manager \<Rightarrow> int \<Rightarrow> error + (memory_manager \<times> nat)" where
  "tratar_page_fault s pagina =
     (case index_None (quadros s) of
        Some q \<Rightarrow>
          (case carrega_pagina s pagina of
             Inl e \<Rightarrow> Inl e
           | Inr page_data \<Rightarrow>
               (case instala_pagina s q pagina page_data of
                  Inl e \<Rightarrow> Inl e
                | Inr s1 \<Rightarrow>
                    Inr (if algoritmo s1 = ''FIFO'' then
                           s1\<lparr>fifo_queue := fifo_queue s1 @ [pagina]\<rparr>
                         else if algoritmo s1 = ''LRU'' then
                           s1\<lparr>uso_recente := AList.update pagina (clock s1) (uso_recente s1)\<rparr>
                         else s1,
                         q)))
      | None \<Rightarrow>
          (if algoritmo s = ''FIFO'' then substituicao_fifo s pagina
           else if algoritmo s = ''LRU'' then substituicao_lru s pagina
           else Inl AlgoritmoInvalido))"

subsection \<open>Translation\<close>

text \<open>
  Lines 58 to 62 of \<open>acessar\<close>: mask to 16 bits, then page number and offset.
\<close>

definition dividir_endereco :: "int \<Rightarrow> int \<times> int" where
  "dividir_endereco endereco_virtual =
     (let ev = endereco_virtual AND 0xFFFF
      in (drop_bit offset_bits ev, ev AND (push_bit offset_bits 1 - 1)))"

text \<open>
  simulador\_v2.py splits with \<open>obter_pagina\<close> and \<open>obter_offset\<close>, without the mask.
\<close>

definition obter_pagina_v2 :: "int \<Rightarrow> int" where
  "obter_pagina_v2 endereco_virtual = drop_bit offset_bits endereco_virtual"

definition obter_offset_v2 :: "int \<Rightarrow> int" where
  "obter_offset_v2 endereco_virtual = endereco_virtual AND (push_bit offset_bits 1 - 1)"

text \<open>
  \<open>pagina in self.page_table and self.page_table[pagina]['valido']\<close>.
\<close>

definition valida :: "memory_manager \<Rightarrow> int \<Rightarrow> bool" where
  "valida s pagina =
     (case page_table s pagina of None \<Rightarrow> False | Some e \<Rightarrow> pte_valido e)"

text \<open>
  Lines 64 to 78 of \<open>acessar\<close>: TLB, then page table, then page fault. The result is the
  state after the updates and the frame found.
\<close>

definition localiza_quadro :: "memory_manager \<Rightarrow> int \<Rightarrow> error + (memory_manager \<times> nat)" where
  "localiza_quadro s pagina =
     (case buscar_na_tlb s pagina of
        Some q \<Rightarrow> Inr (s\<lparr>tlb_hits := tlb_hits s + 1\<rparr>, q)
      | None \<Rightarrow>
          (case (if valida s pagina then page_table s pagina else None) of
             Some e \<Rightarrow> Inr (atualiza_tlb s pagina (pte_quadro e), pte_quadro e)
           | None \<Rightarrow>
               (case tratar_page_fault (s\<lparr>page_faults := page_faults s + 1\<rparr>) pagina of
                  Inl e \<Rightarrow> Inl e
                | Inr (s1, q) \<Rightarrow>
                    Inr (atualiza_tlb
                           (s1\<lparr>page_table :=
                                 (page_table s1)(pagina \<mapsto> \<lparr>pte_quadro = q, pte_valido = True\<rparr>)\<rparr>)
                           pagina q,
                         q))))"

text \<open>
  \<open>acessar\<close>: returns the new state and the pair (physical address, content), or the
  error that ended the call.
\<close>

definition acessar :: "memory_manager \<Rightarrow> int \<Rightarrow> error + (memory_manager \<times> int \<times> int)" where
  "acessar s0 endereco_virtual =
     (let s = s0\<lparr>acessos := acessos s0 + 1, clock := clock s0 + 1\<rparr>;
          (pagina, offset) = dividir_endereco endereco_virtual
      in case localiza_quadro s pagina of
           Inl e \<Rightarrow> Inl e
         | Inr (s2, q) \<Rightarrow>
             let s3 = (if algoritmo s2 = ''LRU'' then
                         s2\<lparr>uso_recente := AList.update pagina (clock s2) (uso_recente s2)\<rparr>
                       else s2);
                 endereco_fisico = push_bit offset_bits (int q) OR offset
             in (case ler_memoria s3 q offset of
                   Inl e \<Rightarrow> Inl e
                 | Inr conteudo \<Rightarrow> Inr (s3, endereco_fisico, conteudo)))"

text \<open>
  The address lines of \<open>main\<close>'s loop: one \<open>acessar\<close> per address, in order. A failed call
  ends the run (\<open>sys.exit\<close> ends the process), so no state is followed past it.
\<close>

fun acessar_todos :: "memory_manager \<Rightarrow> int list \<Rightarrow> error + memory_manager" where
  "acessar_todos s [] = Inr s"
| "acessar_todos s (endereco_virtual # resto) =
     (case acessar s endereco_virtual of
        Inl e \<Rightarrow> Inl e
      | Inr (s', _) \<Rightarrow> acessar_todos s' resto)"

section \<open>Auxiliary definitions for the proofs\<close>

text \<open>
  The three state changes that \<open>acessar\<close> and \<open>tratar_page_fault\<close> perform inline, named so
  that the case rules below can state the resulting state: the two counters bumped at entry,
  the LRU timestamp refreshed at exit, and the registration of a page loaded into a free frame.
\<close>

definition conta_acesso :: "memory_manager \<Rightarrow> memory_manager" where
  "conta_acesso s = s\<lparr>acessos := acessos s + 1, clock := clock s + 1\<rparr>"

definition toca_lru :: "int \<Rightarrow> memory_manager \<Rightarrow> memory_manager" where
  "toca_lru p x =
     (if algoritmo x = ''LRU'' then x\<lparr>uso_recente := AList.update p (clock x) (uso_recente x)\<rparr>
      else x)"

definition registra :: "int \<Rightarrow> memory_manager \<Rightarrow> memory_manager" where
  "registra p x =
     (if algoritmo x = ''FIFO'' then x\<lparr>fifo_queue := fifo_queue x @ [p]\<rparr>
      else if algoritmo x = ''LRU'' then
        x\<lparr>uso_recente := AList.update p (clock x) (uso_recente x)\<rparr>
      else x)"

text \<open>
  The consistency conditions between TLB, page table, frames, physical memory and the
  replacement bookkeeping that every state reached by \<open>acessar\<close> satisfies.
\<close>

definition inv_tlb :: "memory_manager \<Rightarrow> bool" where
  "inv_tlb s \<longleftrightarrow>
     (\<forall>entrada \<in> set (tlb s). \<exists>e. page_table s (tlb_pagina entrada) = Some e \<and> pte_valido e \<and>
        pte_quadro e = tlb_quadro entrada)"

definition inv_fila :: "memory_manager \<Rightarrow> bool" where
  "inv_fila s \<longleftrightarrow>
     (algoritmo s = ''FIFO'' \<longrightarrow> set (fifo_queue s) = {p. valida s p} \<and> distinct (fifo_queue s))"

definition inv_uso :: "memory_manager \<Rightarrow> bool" where
  "inv_uso s \<longleftrightarrow>
     (algoritmo s = ''LRU'' \<longrightarrow>
        fst ` set (uso_recente s) = {p. valida s p} \<and> distinct (map fst (uso_recente s)))"

definition inv_quadros :: "memory_manager \<Rightarrow> bool" where
  "inv_quadros s \<longleftrightarrow>
     (\<forall>p e. page_table s p = Some e \<longrightarrow> pte_valido e \<longrightarrow>
        pte_quadro e < length (quadros s) \<and> quadros s ! pte_quadro e = Some p)"

definition inv_memoria :: "memory_manager \<Rightarrow> bool" where
  "inv_memoria s \<longleftrightarrow>
     (\<forall>p e. page_table s p = Some e \<longrightarrow> pte_valido e \<longrightarrow>
        pte_quadro e < length (physical_memory s) \<and>
        (\<exists>page_data. carrega_pagina s p = Inr page_data \<and>
           physical_memory s ! pte_quadro e = Some page_data))"

definition coerente :: "memory_manager \<Rightarrow> bool" where
  "coerente s \<longleftrightarrow>
     inv_tlb s \<and> inv_fila s \<and> inv_uso s \<and> inv_quadros s \<and> inv_memoria s \<and>
     length (tlb s) \<le> tlb_size"

text \<open>
  The LRU victim as the specification words it: among the entries of the timestamp structure,
  taken in insertion order, the first one whose timestamp is no greater than any other.
  It is compared below with \<open>min_uso_recente\<close>, the source's \<open>min\<close> call.
\<close>

definition menor_tempo_primeira :: "(int \<times> nat) list \<Rightarrow> int option" where
  "menor_tempo_primeira ur =
     map_option fst (find (\<lambda>(k, t). \<forall>(k', t') \<in> set ur. t \<le> t') ur)"

text \<open>
  Two readings of a run that use nothing of the replacement bookkeeping, to compare it with.
  \<open>residentes_por_carga\<close> follows the page table alone and keeps the resident pages in the
  order in which they were loaded: a page enters at the tail when an access finds it not
  resident, and leaves when it stops being resident. \<open>ultimos_acessos\<close> records, for each
  page, the number of the most recent access to it.
\<close>

fun residentes_por_carga ::
  "memory_manager \<Rightarrow> int list \<Rightarrow> int list \<Rightarrow> error + (memory_manager \<times> int list)" where
  "residentes_por_carga s ordem [] = Inr (s, ordem)"
| "residentes_por_carga s ordem (va # resto) =
     (case acessar s va of
        Inl e \<Rightarrow> Inl e
      | Inr (s', _) \<Rightarrow>
          residentes_por_carga s'
            (filter (valida s') ordem
             @ (if valida s (fst (dividir_endereco va)) then [] else [fst (dividir_endereco va)]))
            resto)"

fun ultimos_acessos ::
  "memory_manager \<Rightarrow> (int \<rightharpoonup> nat) \<Rightarrow> int list \<Rightarrow> error + (memory_manager \<times> (int \<rightharpoonup> nat))" where
  "ultimos_acessos s ult [] = Inr (s, ult)"
| "ultimos_acessos s ult (va # resto) =
     (case acessar s va of
        Inl e \<Rightarrow> Inl e
      | Inr (s', _) \<Rightarrow>
          ultimos_acessos s' (ult(fst (dividir_endereco va) \<mapsto> acessos s')) resto)"

text \<open>
  A full backing store for the concrete runs: 256 pages of 256 bytes, every byte 200.
\<close>

definition store_200 :: "byte list" where
  "store_200 = replicate 65536 200"

section \<open>Basic facts\<close>

lemma buscar_None_iff: "buscar_entradas t p = None \<longleftrightarrow> p \<notin> tlb_pagina ` set t"
  by (induction t) auto

lemma buscar_Some_mem:
  "buscar_entradas t p = Some q \<Longrightarrow> \<exists>e \<in> set t. tlb_pagina e = p \<and> tlb_quadro e = q"
  by (induction t) (auto split: if_splits)

lemma buscar_append:
  "buscar_entradas (xs @ ys) p =
     (case buscar_entradas xs p of None \<Rightarrow> buscar_entradas ys p | Some q \<Rightarrow> Some q)"
  by (induction xs) auto

lemma acessar_unfold:
  "acessar s va =
     (case localiza_quadro (conta_acesso s) (fst (dividir_endereco va)) of
        Inl e \<Rightarrow> Inl e
      | Inr (s2, q) \<Rightarrow>
          (case ler_memoria (toca_lru (fst (dividir_endereco va)) s2) q (snd (dividir_endereco va)) of
             Inl e \<Rightarrow> Inl e
           | Inr c \<Rightarrow>
               Inr (toca_lru (fst (dividir_endereco va)) s2,
                    push_bit offset_bits (int q) OR snd (dividir_endereco va), c)))"
  by (simp add: acessar_def conta_acesso_def toca_lru_def Let_def split: prod.splits sum.splits)


lemma carrega_pagina_cong:
  "backing_store s = backing_store t \<Longrightarrow> carrega_pagina s p = carrega_pagina t p"
  by (simp add: carrega_pagina_def)

lemma substituicao_fifo_Inr:
  assumes "substituicao_fifo s p = Inr (s1, q)"
  shows "\<exists>v resto e page_data.
           fifo_queue s = v # resto \<and> page_table s v = Some e \<and> q = pte_quadro e \<and>
           carrega_pagina s p = Inr page_data \<and>
           q < length (physical_memory s) \<and> q < length (quadros s) \<and>
           s1 = s\<lparr>fifo_queue := resto @ [p],
                  page_table := (page_table s)(v \<mapsto> e\<lparr>pte_valido := False\<rparr>),
                  tlb := filter (\<lambda>entrada. tlb_pagina entrada \<noteq> v) (tlb s),
                  physical_memory := (physical_memory s)[q := Some page_data],
                  quadros := (quadros s)[q := Some p]\<rparr>"
  using assms
  by (auto simp: substituicao_fifo_def invalida_vitima_def remover_da_tlb_def instala_pagina_def
        carrega_pagina_def
      split: list.splits option.splits sum.splits if_splits)

lemma substituicao_lru_Inr:
  assumes "substituicao_lru s p = Inr (s1, q)"
  shows "\<exists>v e page_data.
           min_uso_recente (uso_recente s) = Inr v \<and> page_table s v = Some e \<and> q = pte_quadro e \<and>
           carrega_pagina s p = Inr page_data \<and>
           q < length (physical_memory s) \<and> q < length (quadros s) \<and>
           s1 = s\<lparr>uso_recente := AList.update p (clock s) (AList.delete v (uso_recente s)),
                  page_table := (page_table s)(v \<mapsto> e\<lparr>pte_valido := False\<rparr>),
                  tlb := filter (\<lambda>entrada. tlb_pagina entrada \<noteq> v) (tlb s),
                  physical_memory := (physical_memory s)[q := Some page_data],
                  quadros := (quadros s)[q := Some p]\<rparr>"
  using assms
  by (auto simp: substituicao_lru_def invalida_vitima_def remover_da_tlb_def instala_pagina_def
        carrega_pagina_def Let_def
      split: list.splits option.splits sum.splits if_splits)


lemma index_None_Some:
  "index_None qs = Some q \<Longrightarrow> q < length qs \<and> qs ! q = None"
  by (induction qs arbitrary: q) (auto split: option.splits)

lemma index_None_None: "index_None qs = None \<longleftrightarrow> None \<notin> set qs"
  by (induction qs) (auto split: option.splits)

lemma tratar_page_fault_cases [consumes 1, case_names livre fifo lru]:
  assumes "tratar_page_fault s p = Inr (s1, q)"
  obtains
    (livre) page_data where
      "index_None (quadros s) = Some q" "carrega_pagina s p = Inr page_data"
      "q < length (physical_memory s)" "q < length (quadros s)"
      "s1 = registra p (s\<lparr>physical_memory := (physical_memory s)[q := Some page_data],
                            quadros := (quadros s)[q := Some p]\<rparr>)"
  | (fifo) v resto e page_data where
      "index_None (quadros s) = None" "algoritmo s = ''FIFO''"
      "fifo_queue s = v # resto" "page_table s v = Some e" "q = pte_quadro e"
      "carrega_pagina s p = Inr page_data"
      "q < length (physical_memory s)" "q < length (quadros s)"
      "s1 = s\<lparr>fifo_queue := resto @ [p],
                page_table := (page_table s)(v \<mapsto> e\<lparr>pte_valido := False\<rparr>),
                tlb := filter (\<lambda>entrada. tlb_pagina entrada \<noteq> v) (tlb s),
                physical_memory := (physical_memory s)[q := Some page_data],
                quadros := (quadros s)[q := Some p]\<rparr>"
  | (lru) v e page_data where
      "index_None (quadros s) = None" "algoritmo s = ''LRU''"
      "min_uso_recente (uso_recente s) = Inr v" "page_table s v = Some e" "q = pte_quadro e"
      "carrega_pagina s p = Inr page_data"
      "q < length (physical_memory s)" "q < length (quadros s)"
      "s1 = s\<lparr>uso_recente := AList.update p (clock s) (AList.delete v (uso_recente s)),
                page_table := (page_table s)(v \<mapsto> e\<lparr>pte_valido := False\<rparr>),
                tlb := filter (\<lambda>entrada. tlb_pagina entrada \<noteq> v) (tlb s),
                physical_memory := (physical_memory s)[q := Some page_data],
                quadros := (quadros s)[q := Some p]\<rparr>"
proof (cases "index_None (quadros s)")
  case (Some q')
  with assms obtain page_data where
    "carrega_pagina s p = Inr page_data" "q' = q"
    "q < length (physical_memory s)" "q < length (quadros s)"
    "s1 = registra p (s\<lparr>physical_memory := (physical_memory s)[q := Some page_data],
                          quadros := (quadros s)[q := Some p]\<rparr>)"
    by (auto simp: tratar_page_fault_def instala_pagina_def registra_def
        split: sum.splits if_splits)
  with Some show thesis by (auto intro: livre)
next
  case None
  show thesis
  proof (cases "algoritmo s = ''FIFO''")
    case True
    with None assms have "substituicao_fifo s p = Inr (s1, q)"
      by (simp add: tratar_page_fault_def)
    from substituicao_fifo_Inr [OF this] None True show thesis
      by (auto intro: fifo)
  next
    case False
    with None assms have l: "algoritmo s = ''LRU''" and "substituicao_lru s p = Inr (s1, q)"
      by (auto simp: tratar_page_fault_def split: if_splits)
    from substituicao_lru_Inr [OF this(2)] None l show thesis
      by (auto intro: lru)
  qed
qed

lemma acessar_cases [consumes 2, case_names hit tabela falta]:
  assumes "acessar s va = Inr (s', ef, c)" and "dividir_endereco va = (p, off)"
  obtains
    (hit) q where
      "buscar_na_tlb s p = Some q"
      "s' = toca_lru p ((conta_acesso s)\<lparr>tlb_hits := tlb_hits s + 1\<rparr>)"
      "ef = push_bit offset_bits (int q) OR off" "ler_memoria s' q off = Inr c"
  | (tabela) e where
      "buscar_na_tlb s p = None" "page_table s p = Some e" "pte_valido e"
      "s' = toca_lru p (atualiza_tlb (conta_acesso s) p (pte_quadro e))"
      "ef = push_bit offset_bits (int (pte_quadro e)) OR off"
      "ler_memoria s' (pte_quadro e) off = Inr c"
  | (falta) s1 q where
      "buscar_na_tlb s p = None" "\<not> valida s p"
      "tratar_page_fault ((conta_acesso s)\<lparr>page_faults := page_faults s + 1\<rparr>) p = Inr (s1, q)"
      "s' = toca_lru p (atualiza_tlb
              (s1\<lparr>page_table := (page_table s1)(p \<mapsto> \<lparr>pte_quadro = q, pte_valido = True\<rparr>)\<rparr>)
              p q)"
      "ef = push_bit offset_bits (int q) OR off" "ler_memoria s' q off = Inr c"
proof (cases "buscar_na_tlb s p")
  case (Some q)
  with assms show thesis
    by (intro hit [of q])
       (auto simp: acessar_unfold localiza_quadro_def buscar_na_tlb_def conta_acesso_def
          split: sum.splits)
next
  case None
  show thesis
  proof (cases "valida s p")
    case True
    then obtain e where e: "page_table s p = Some e" "pte_valido e"
      by (auto simp: valida_def split: option.splits)
    with assms None True show thesis
      by (intro tabela [of e])
         (auto simp: acessar_unfold localiza_quadro_def buscar_na_tlb_def conta_acesso_def
            valida_def split: sum.splits)
  next
    case False
    with assms None obtain s1 q where
      "tratar_page_fault ((conta_acesso s)\<lparr>page_faults := page_faults s + 1\<rparr>) p = Inr (s1, q)"
      "s' = toca_lru p (atualiza_tlb
              (s1\<lparr>page_table := (page_table s1)(p \<mapsto> \<lparr>pte_quadro = q, pte_valido = True\<rparr>)\<rparr>)
              p q)"
      "ef = push_bit offset_bits (int q) OR off" "ler_memoria s' q off = Inr c"
      by (auto simp: acessar_unfold localiza_quadro_def buscar_na_tlb_def conta_acesso_def
            valida_def split: sum.splits option.splits)
    with None False show thesis by (intro falta)
  qed
qed

lemma conta_acesso_simps [simp]:
  "page_table (conta_acesso s) = page_table s" "tlb (conta_acesso s) = tlb s"
  "quadros (conta_acesso s) = quadros s" "physical_memory (conta_acesso s) = physical_memory s"
  "fifo_queue (conta_acesso s) = fifo_queue s" "uso_recente (conta_acesso s) = uso_recente s"
  "algoritmo (conta_acesso s) = algoritmo s" "backing_store (conta_acesso s) = backing_store s"
  "page_faults (conta_acesso s) = page_faults s" "tlb_hits (conta_acesso s) = tlb_hits s"
  "clock (conta_acesso s) = Suc (clock s)" "acessos (conta_acesso s) = Suc (acessos s)"
  "num_quadros (conta_acesso s) = num_quadros s"
  by (simp_all add: conta_acesso_def)

lemma toca_lru_simps [simp]:
  "page_table (toca_lru p s) = page_table s" "tlb (toca_lru p s) = tlb s"
  "quadros (toca_lru p s) = quadros s" "physical_memory (toca_lru p s) = physical_memory s"
  "fifo_queue (toca_lru p s) = fifo_queue s"
  "algoritmo (toca_lru p s) = algoritmo s" "backing_store (toca_lru p s) = backing_store s"
  "page_faults (toca_lru p s) = page_faults s" "tlb_hits (toca_lru p s) = tlb_hits s"
  "clock (toca_lru p s) = clock s" "acessos (toca_lru p s) = acessos s"
  "num_quadros (toca_lru p s) = num_quadros s"
  "uso_recente (toca_lru p s) =
     (if algoritmo s = ''LRU'' then AList.update p (clock s) (uso_recente s) else uso_recente s)"
  by (simp_all add: toca_lru_def)

lemma atualiza_tlb_simps [simp]:
  "page_table (atualiza_tlb s p q) = page_table s"
  "quadros (atualiza_tlb s p q) = quadros s"
  "physical_memory (atualiza_tlb s p q) = physical_memory s"
  "fifo_queue (atualiza_tlb s p q) = fifo_queue s"
  "uso_recente (atualiza_tlb s p q) = uso_recente s"
  "algoritmo (atualiza_tlb s p q) = algoritmo s"
  "backing_store (atualiza_tlb s p q) = backing_store s"
  "page_faults (atualiza_tlb s p q) = page_faults s" "tlb_hits (atualiza_tlb s p q) = tlb_hits s"
  "clock (atualiza_tlb s p q) = clock s" "acessos (atualiza_tlb s p q) = acessos s"
  "num_quadros (atualiza_tlb s p q) = num_quadros s"
  "tlb (atualiza_tlb s p q) =
     (if tlb_size \<le> length (tlb s) then tl (tlb s) else tlb s)
     @ [\<lparr>tlb_pagina = p, tlb_quadro = q\<rparr>]"
  by (simp_all add: atualiza_tlb_def)

lemma registra_simps [simp]:
  "page_table (registra p s) = page_table s" "tlb (registra p s) = tlb s"
  "quadros (registra p s) = quadros s" "physical_memory (registra p s) = physical_memory s"
  "algoritmo (registra p s) = algoritmo s" "backing_store (registra p s) = backing_store s"
  "page_faults (registra p s) = page_faults s" "tlb_hits (registra p s) = tlb_hits s"
  "clock (registra p s) = clock s" "acessos (registra p s) = acessos s"
  "num_quadros (registra p s) = num_quadros s"
  "fifo_queue (registra p s) =
     (if algoritmo s = ''FIFO'' then fifo_queue s @ [p] else fifo_queue s)"
  "uso_recente (registra p s) =
     (if algoritmo s \<noteq> ''FIFO'' \<and> algoritmo s = ''LRU''
      then AList.update p (clock s) (uso_recente s) else uso_recente s)"
  by (simp_all add: registra_def)

lemma carrega_pagina_simps [simp]:
  "carrega_pagina (conta_acesso s) p = carrega_pagina s p"
  "carrega_pagina (toca_lru p' s) p = carrega_pagina s p"
  "carrega_pagina (atualiza_tlb s p' q) p = carrega_pagina s p"
  "carrega_pagina (registra p' s) p = carrega_pagina s p"
  by (simp_all add: carrega_pagina_def)

lemma set_tl_subset: "x \<in> set (tl xs) \<Longrightarrow> x \<in> set xs"
  by (cases xs) auto

lemma inv_tlb_step:
  assumes "inv_tlb s" and "set X \<subseteq> set (tlb s)"
    and "tlb s' = (if tlb_size \<le> length X then tl X else X) @ [\<lparr>tlb_pagina = p, tlb_quadro = q\<rparr>]"
    and "\<exists>e. page_table s' p = Some e \<and> pte_valido e \<and> pte_quadro e = q"
    and "\<And>x. x \<in> set X \<Longrightarrow> page_table s' (tlb_pagina x) = page_table s (tlb_pagina x)"
  shows "inv_tlb s'"
  unfolding inv_tlb_def
proof
  fix entrada assume "entrada \<in> set (tlb s')"
  then consider "entrada = \<lparr>tlb_pagina = p, tlb_quadro = q\<rparr>" | "entrada \<in> set X"
    using assms(3) by (auto split: if_splits dest: set_tl_subset)
  then show "\<exists>e. page_table s' (tlb_pagina entrada) = Some e \<and> pte_valido e \<and>
                 pte_quadro e = tlb_quadro entrada"
  proof cases
    case 1
    with assms(4) show ?thesis by simp
  next
    case 2
    with assms(1,2) have "\<exists>e. page_table s (tlb_pagina entrada) = Some e \<and> pte_valido e \<and>
        pte_quadro e = tlb_quadro entrada"
      by (auto simp: inv_tlb_def)
    with assms(5) [OF 2] show ?thesis by simp
  qed
qed

lemma inv_tlb_acessar:
  assumes "inv_tlb s" "acessar s va = Inr (s', r)"
  shows "inv_tlb s'"
proof -
  obtain ef c where r: "r = (ef, c)" by (cases r)
  obtain p off where d: "dividir_endereco va = (p, off)" by (cases "dividir_endereco va")
  from assms(2) [unfolded r] d show ?thesis
  proof (cases rule: acessar_cases)
    case (hit q)
    with assms(1) show ?thesis by (simp add: inv_tlb_def)
  next
    case (tabela e)
    show ?thesis
      by (rule inv_tlb_step [OF assms(1), of "tlb s" _ p "pte_quadro e"])
         (simp_all add: tabela)
  next
    case (falta s1 q)
    have np: "tlb_pagina x \<noteq> p" if "x \<in> set (tlb s)" for x
      using that falta(2) assms(1) by (auto simp: inv_tlb_def valida_def)
    from falta(3) show ?thesis
    proof (cases rule: tratar_page_fault_cases)
      case (livre page_data)
      show ?thesis
        by (rule inv_tlb_step [OF assms(1), of "tlb s" _ p q])
           (simp_all add: falta(4) livre(5) np)
    next
      case (fifo v resto e page_data)
      show ?thesis
        by (rule inv_tlb_step [OF assms(1),
              of "filter (\<lambda>entrada. tlb_pagina entrada \<noteq> v) (tlb s)" _ p q])
           (simp_all add: falta(4) fifo(9) np)
    next
      case (lru v e page_data)
      show ?thesis
        by (rule inv_tlb_step [OF assms(1),
              of "filter (\<lambda>entrada. tlb_pagina entrada \<noteq> v) (tlb s)" _ p q])
           (simp_all add: falta(4) lru(9) np)
    qed
  qed
qed

section \<open>Preservation of the consistency conditions\<close>

lemma valida_page_table: "page_table s = page_table t \<Longrightarrow> valida s = valida t"
  by (auto simp: valida_def fun_eq_iff)

lemma validas_carga:
  assumes "page_table s' = (page_table s)(p \<mapsto> \<lparr>pte_quadro = q, pte_valido = True\<rparr>)"
  shows "{x. valida s' x} = insert p {x. valida s x}"
  using assms by (auto simp: valida_def)

lemma validas_troca:
  assumes "page_table s' =
             (page_table s)(v \<mapsto> e\<lparr>pte_valido := False\<rparr>,
                            p \<mapsto> \<lparr>pte_quadro = q, pte_valido = True\<rparr>)"
    and "v \<noteq> p"
  shows "{x. valida s' x} = insert p ({x. valida s x} - {v})"
  using assms by (auto simp: valida_def)

lemma tlb_size_acessar:
  assumes "length (tlb s) \<le> tlb_size" "acessar s va = Inr (s', r)"
  shows "length (tlb s') \<le> tlb_size"
proof -
  obtain ef c where r: "r = (ef, c)" by (cases r)
  obtain p off where d: "dividir_endereco va = (p, off)" by (cases "dividir_endereco va")
  have f: "length (filter P (tlb s)) \<le> tlb_size" for P
    using assms(1) length_filter_le [of P "tlb s"] by linarith
  from assms(2) [unfolded r] d show ?thesis
  proof (cases rule: acessar_cases)
    case (hit q)
    with assms(1) show ?thesis by simp
  next
    case (tabela e)
    with assms(1) show ?thesis by (simp add: tlb_size_def)
  next
    case (falta s1 q)
    from falta(3) show ?thesis
    proof (cases rule: tratar_page_fault_cases)
      case (livre page_data)
      with assms(1) falta(4) show ?thesis by (simp add: tlb_size_def)
    next
      case (fifo v resto e page_data)
      with f [of "\<lambda>entrada. tlb_pagina entrada \<noteq> v"] falta(4) show ?thesis
        by (simp add: tlb_size_def)
    next
      case (lru v e page_data)
      with f [of "\<lambda>entrada. tlb_pagina entrada \<noteq> v"] falta(4) show ?thesis
        by (simp add: tlb_size_def)
    qed
  qed
qed

lemma inv_fila_acessar:
  assumes "inv_fila s" "acessar s va = Inr (s', r)"
  shows "inv_fila s'"
proof -
  obtain ef c where r: "r = (ef, c)" by (cases r)
  obtain p off where d: "dividir_endereco va = (p, off)" by (cases "dividir_endereco va")
  from assms(2) [unfolded r] d show ?thesis
  proof (cases rule: acessar_cases)
    case (hit q)
    then have "page_table s' = page_table s" "fifo_queue s' = fifo_queue s"
      "algoritmo s' = algoritmo s" by simp_all
    with assms(1) valida_page_table [of s' s] show ?thesis by (simp add: inv_fila_def)
  next
    case (tabela e)
    then have "page_table s' = page_table s" "fifo_queue s' = fifo_queue s"
      "algoritmo s' = algoritmo s" by simp_all
    with assms(1) valida_page_table [of s' s] show ?thesis by (simp add: inv_fila_def)
  next
    case (falta s1 q)
    from falta(3) show ?thesis
    proof (cases rule: tratar_page_fault_cases)
      case (livre page_data)
      with falta(4) have pt: "page_table s' = (page_table s)(p \<mapsto> \<lparr>pte_quadro = q, pte_valido = True\<rparr>)"
        and a: "algoritmo s' = algoritmo s"
        and f: "algoritmo s = ''FIFO'' \<Longrightarrow> fifo_queue s' = fifo_queue s @ [p]"
        by simp_all
      show ?thesis
        unfolding inv_fila_def
      proof
        assume "algoritmo s' = ''FIFO''"
        with a have F: "algoritmo s = ''FIFO''" by simp
        with assms(1) have i: "set (fifo_queue s) = {x. valida s x}" "distinct (fifo_queue s)"
          by (simp_all add: inv_fila_def)
        with falta(2) have "p \<notin> set (fifo_queue s)" by simp
        with i f [OF F] validas_carga [OF pt]
        show "set (fifo_queue s') = {x. valida s' x} \<and> distinct (fifo_queue s')" by simp
      qed
    next
      case (fifo v resto e page_data)
      from fifo(2) have F: "algoritmo s = ''FIFO''" by simp
      with assms(1) have i: "set (fifo_queue s) = {x. valida s x}" "distinct (fifo_queue s)"
        by (simp_all add: inv_fila_def)
      from fifo(3) have fq: "fifo_queue s = v # resto" by simp
      with i have vv: "valida s v" by auto
      with falta(2) have ne: "v \<noteq> p" by auto
      from fifo(4) have "page_table s v = Some e" by simp
      with falta(4) fifo(9) have pt: "page_table s' =
             (page_table s)(v \<mapsto> e\<lparr>pte_valido := False\<rparr>,
                            p \<mapsto> \<lparr>pte_quadro = q, pte_valido = True\<rparr>)"
        and f: "fifo_queue s' = resto @ [p]" by simp_all
      from i fq have "set resto = {x. valida s x} - {v}" "distinct resto" by auto
      moreover from falta(2) have "\<not> valida s p" .
      ultimately show ?thesis
        unfolding inv_fila_def using f validas_troca [OF pt ne] by auto
    next
      case (lru v e page_data)
      with falta(4) have "algoritmo s' = ''LRU''" by simp
      then show ?thesis by (simp add: inv_fila_def)
    qed
  qed
qed

lemma min_loop_mem: "min_loop b resto \<in> fst ` set (b # resto)"
proof (induction resto arbitrary: b)
  case Nil
  show ?case by (cases b) simp
next
  case (Cons x xs)
  obtain bk bt where b: "b = (bk, bt)" by (cases b)
  obtain k t where x: "x = (k, t)" by (cases x)
  show ?case
    using Cons.IH [of "(k, t)"] Cons.IH [of "(bk, bt)"] by (auto simp: b x)
qed

lemma min_uso_recente_mem: "min_uso_recente ur = Inr v \<Longrightarrow> v \<in> fst ` set ur"
  using min_loop_mem by (auto simp: min_uso_recente_def split: list.splits)

lemma dom_delete: "fst ` set (AList.delete k al) = fst ` set al - {k}"
  by (auto simp: AList.delete_eq)

lemma hit_valida:
  assumes "inv_tlb s" "buscar_na_tlb s p = Some q"
  shows "\<exists>e. page_table s p = Some e \<and> pte_valido e \<and> pte_quadro e = q"
  using buscar_Some_mem [of "tlb s" p q] assms
  by (auto simp: inv_tlb_def buscar_na_tlb_def)

lemma inv_uso_acessar:
  assumes "inv_uso s" "acessar s va = Inr (s', r)" "inv_tlb s"
  shows "inv_uso s'"
proof -
  obtain ef c where r: "r = (ef, c)" by (cases r)
  obtain p off where d: "dividir_endereco va = (p, off)" by (cases "dividir_endereco va")
  have keep: "inv_uso s'"
    if pt: "page_table s' = page_table s" and a: "algoritmo s' = algoritmo s"
      and u: "algoritmo s = ''LRU'' \<Longrightarrow> uso_recente s' = AList.update p t (uso_recente s)"
      and v: "valida s p" for t
    unfolding inv_uso_def
  proof
    assume "algoritmo s' = ''LRU''"
    with a have L: "algoritmo s = ''LRU''" by simp
    with assms(1) have i: "fst ` set (uso_recente s) = {x. valida s x}"
      "distinct (map fst (uso_recente s))" by (simp_all add: inv_uso_def)
    with v have "p \<in> fst ` set (uso_recente s)" by simp
    with i valida_page_table [OF pt] u [OF L]
    show "fst ` set (uso_recente s') = {x. valida s' x} \<and> distinct (map fst (uso_recente s'))"
      by (auto simp: AList.dom_update AList.distinct_update)
  qed
  from assms(2) [unfolded r] d show ?thesis
  proof (cases rule: acessar_cases)
    case (hit q)
    from hit_valida [OF assms(3) hit(1)] have "valida s p" by (auto simp: valida_def)
    with hit show ?thesis by (intro keep [of "Suc (clock s)"]) simp_all
  next
    case (tabela e)
    then have "valida s p" by (simp add: valida_def)
    with tabela show ?thesis by (intro keep [of "Suc (clock s)"]) simp_all
  next
    case (falta s1 q)
    from falta(3) show ?thesis
    proof (cases rule: tratar_page_fault_cases)
      case (livre page_data)
      with falta(4) have pt: "page_table s' = (page_table s)(p \<mapsto> \<lparr>pte_quadro = q, pte_valido = True\<rparr>)"
        and a: "algoritmo s' = algoritmo s"
        and u: "algoritmo s = ''LRU'' \<Longrightarrow>
                  uso_recente s' = AList.update p (Suc (clock s)) (uso_recente s)"
        by simp_all
      show ?thesis
        unfolding inv_uso_def
      proof
        assume "algoritmo s' = ''LRU''"
        with a have L: "algoritmo s = ''LRU''" by simp
        with assms(1) have i: "fst ` set (uso_recente s) = {x. valida s x}"
          "distinct (map fst (uso_recente s))" by (simp_all add: inv_uso_def)
        with u [OF L] validas_carga [OF pt]
        show "fst ` set (uso_recente s') = {x. valida s' x} \<and> distinct (map fst (uso_recente s'))"
          by (simp add: AList.dom_update AList.distinct_update)
      qed
    next
      case (fifo v resto e page_data)
      with falta(4) have "algoritmo s' = ''FIFO''" by simp
      then show ?thesis by (simp add: inv_uso_def)
    next
      case (lru v e page_data)
      from lru(2) have L: "algoritmo s = ''LRU''" by simp
      with assms(1) have i: "fst ` set (uso_recente s) = {x. valida s x}"
        "distinct (map fst (uso_recente s))" by (simp_all add: inv_uso_def)
      from lru(3) have "min_uso_recente (uso_recente s) = Inr v" by simp
      from min_uso_recente_mem [OF this] i have vv: "valida s v" by auto
      with falta(2) have ne: "v \<noteq> p" by auto
      from lru(4) have "page_table s v = Some e" by simp
      with falta(4) lru(9) L have pt: "page_table s' =
             (page_table s)(v \<mapsto> e\<lparr>pte_valido := False\<rparr>,
                            p \<mapsto> \<lparr>pte_quadro = q, pte_valido = True\<rparr>)"
        and u: "uso_recente s' =
                  AList.update p (Suc (clock s)) (AList.delete v (uso_recente s))"
        by simp_all
      show ?thesis
        unfolding inv_uso_def using i u validas_troca [OF pt ne]
        by (simp add: AList.dom_update AList.distinct_update AList.distinct_delete dom_delete)
    qed
  qed
qed

lemma carrega_pagina_upd [simp]:
  "carrega_pagina (page_faults_update f1 s) p = carrega_pagina s p"
  "carrega_pagina (tlb_hits_update f2 s) p = carrega_pagina s p"
  "carrega_pagina (acessos_update f3 s) p = carrega_pagina s p"
  "carrega_pagina (clock_update f4 s) p = carrega_pagina s p"
  "carrega_pagina (tlb_update f5 s) p = carrega_pagina s p"
  "carrega_pagina (page_table_update f6 s) p = carrega_pagina s p"
  "carrega_pagina (quadros_update f7 s) p = carrega_pagina s p"
  "carrega_pagina (physical_memory_update f8 s) p = carrega_pagina s p"
  "carrega_pagina (fifo_queue_update f9 s) p = carrega_pagina s p"
  "carrega_pagina (uso_recente_update f10 s) p = carrega_pagina s p"
  by (simp_all add: carrega_pagina_def)

lemma falta_resumo:
  assumes nv: "\<not> valida s p"
    and t: "tratar_page_fault ((conta_acesso s)\<lparr>page_faults := page_faults s + 1\<rparr>) p = Inr (s1, q)"
    and s': "s' = toca_lru p (atualiza_tlb
              (s1\<lparr>page_table := (page_table s1)(p \<mapsto> \<lparr>pte_quadro = q, pte_valido = True\<rparr>)\<rparr>)
              p q)"
    and iq: "inv_quadros s" and ifl: "inv_fila s" and iu: "inv_uso s"
  shows "q < length (quadros s) \<and> q < length (physical_memory s) \<and>
         quadros s' = (quadros s)[q := Some p] \<and>
         (\<exists>page_data. carrega_pagina s p = Inr page_data \<and>
            physical_memory s' = (physical_memory s)[q := Some page_data]) \<and>
         page_table s' p = Some \<lparr>pte_quadro = q, pte_valido = True\<rparr> \<and>
         backing_store s' = backing_store s \<and>
         (\<forall>x e. x \<noteq> p \<longrightarrow> page_table s' x = Some e \<longrightarrow> pte_valido e \<longrightarrow>
            page_table s x = Some e \<and> pte_quadro e \<noteq> q)"
proof -
  have troca: ?thesis
    if vv: "valida s v" and pv: "page_table s v = Some ev" and qe: "q = pte_quadro ev"
      and l1: "q < length (physical_memory s)" and l2: "q < length (quadros s)"
      and c: "carrega_pagina s p = Inr page_data"
      and pt: "page_table s' = (page_table s)(v \<mapsto> ev\<lparr>pte_valido := False\<rparr>,
                            p \<mapsto> \<lparr>pte_quadro = q, pte_valido = True\<rparr>)"
      and qs: "quadros s' = (quadros s)[q := Some p]"
      and pm: "physical_memory s' = (physical_memory s)[q := Some page_data]"
      and bs: "backing_store s' = backing_store s"
    for v ev page_data
  proof -
    from vv pv have "pte_valido ev" by (simp add: valida_def)
    with iq pv qe have qv: "quadros s ! q = Some v" by (simp add: inv_quadros_def)
    have "page_table s x = Some e \<and> pte_quadro e \<noteq> q"
      if "x \<noteq> p" "page_table s' x = Some e" "pte_valido e" for x e
    proof -
      from that pt have xv: "x \<noteq> v" by (auto split: if_splits)
      with that pt have px: "page_table s x = Some e" by simp
      with iq that(3) have "quadros s ! pte_quadro e = Some x" by (simp add: inv_quadros_def)
      with qv xv px show ?thesis by auto
    qed
    with l1 l2 c pt qs pm bs show ?thesis by auto
  qed
  from t show ?thesis
  proof (cases rule: tratar_page_fault_cases)
    case (livre page_data)
    from livre(1) have fr: "quadros s ! q = None"
      using index_None_Some [of "quadros s" q] by simp
    have "page_table s x = Some e \<and> pte_quadro e \<noteq> q"
      if "x \<noteq> p" "page_table s' x = Some e" "pte_valido e" for x e
    proof -
      from that s' livre(5) have px: "page_table s x = Some e" by simp
      with iq that(3) have "quadros s ! pte_quadro e = Some x" by (simp add: inv_quadros_def)
      with fr px show ?thesis by auto
    qed
    moreover from livre have "carrega_pagina s p = Inr page_data" by simp
    ultimately show ?thesis using livre s' by simp
  next
    case (fifo v resto e page_data)
    from fifo(2,3) ifl have "valida s v" by (auto simp: inv_fila_def)
    moreover from fifo have "carrega_pagina s p = Inr page_data" by simp
    ultimately show ?thesis
      using fifo s' by (intro troca [of v e page_data]) simp_all
  next
    case (lru v e page_data)
    from lru(3) have "min_uso_recente (uso_recente s) = Inr v" by simp
    from min_uso_recente_mem [OF this] lru(2) iu have "valida s v" by (auto simp: inv_uso_def)
    moreover from lru have "carrega_pagina s p = Inr page_data" by simp
    ultimately show ?thesis
      using lru s' by (intro troca [of v e page_data]) simp_all
  qed
qed

lemma inv_quadros_acessar:
  assumes "inv_quadros s" "acessar s va = Inr (s', r)" "inv_fila s" "inv_uso s"
  shows "inv_quadros s'"
proof -
  obtain ef c where r: "r = (ef, c)" by (cases r)
  obtain p off where d: "dividir_endereco va = (p, off)" by (cases "dividir_endereco va")
  from assms(2) [unfolded r] d show ?thesis
  proof (cases rule: acessar_cases)
    case (hit q)
    with assms(1) show ?thesis by (simp add: inv_quadros_def)
  next
    case (tabela e)
    with assms(1) show ?thesis by (simp add: inv_quadros_def)
  next
    case (falta s1 q)
    note R = falta_resumo [OF falta(2,3,4) assms(1,3,4)]
    show ?thesis
      unfolding inv_quadros_def
    proof (intro allI impI)
      fix x e assume x: "page_table s' x = Some e" "pte_valido e"
      show "pte_quadro e < length (quadros s') \<and> quadros s' ! pte_quadro e = Some x"
      proof (cases "x = p")
        case True
        with x R show ?thesis by auto
      next
        case False
        with x R have px: "page_table s x = Some e" "pte_quadro e \<noteq> q" by auto
        with assms(1) x(2) have "pte_quadro e < length (quadros s)"
          "quadros s ! pte_quadro e = Some x" by (simp_all add: inv_quadros_def)
        with px R show ?thesis by simp
      qed
    qed
  qed
qed

lemma inv_memoria_acessar:
  assumes "inv_memoria s" "acessar s va = Inr (s', r)" "inv_quadros s" "inv_fila s" "inv_uso s"
  shows "inv_memoria s'"
proof -
  obtain ef c where r: "r = (ef, c)" by (cases r)
  obtain p off where d: "dividir_endereco va = (p, off)" by (cases "dividir_endereco va")
  from assms(2) [unfolded r] d show ?thesis
  proof (cases rule: acessar_cases)
    case (hit q)
    with assms(1) show ?thesis by (simp add: inv_memoria_def)
  next
    case (tabela e)
    with assms(1) show ?thesis by (simp add: inv_memoria_def)
  next
    case (falta s1 q)
    note R = falta_resumo [OF falta(2,3,4) assms(3,4,5)]
    from R obtain page_data where pd: "carrega_pagina s p = Inr page_data"
      "physical_memory s' = (physical_memory s)[q := Some page_data]" by auto
    from R have bs: "carrega_pagina s' x = carrega_pagina s x" for x
      by (intro carrega_pagina_cong) simp
    show ?thesis
      unfolding inv_memoria_def
    proof (intro allI impI)
      fix x e assume x: "page_table s' x = Some e" "pte_valido e"
      show "pte_quadro e < length (physical_memory s') \<and>
            (\<exists>page_data. carrega_pagina s' x = Inr page_data \<and>
               physical_memory s' ! pte_quadro e = Some page_data)"
      proof (cases "x = p")
        case True
        with x R pd bs show ?thesis by auto
      next
        case False
        with x R have px: "page_table s x = Some e" "pte_quadro e \<noteq> q" by auto
        with assms(1) x(2) have "pte_quadro e < length (physical_memory s)"
          "\<exists>page_data. carrega_pagina s x = Inr page_data \<and>
               physical_memory s ! pte_quadro e = Some page_data"
          by (simp_all add: inv_memoria_def)
        with px pd bs show ?thesis by simp
      qed
    qed
  qed
qed

lemma coerente_init: "coerente (MemoryManager_init n alg store)"
  by (simp add: coerente_def inv_tlb_def inv_fila_def inv_uso_def inv_quadros_def
        inv_memoria_def valida_def MemoryManager_init_def)

lemma coerente_acessar:
  assumes "coerente s" "acessar s va = Inr (s', r)"
  shows "coerente s'"
  using assms inv_tlb_acessar [of s va s' r] inv_fila_acessar [of s va s' r]
    inv_uso_acessar [of s va s' r] inv_quadros_acessar [of s va s' r]
    inv_memoria_acessar [of s va s' r] tlb_size_acessar [of s va s' r]
  by (simp add: coerente_def)

lemma coerente_acessar_todos:
  assumes "coerente s" "acessar_todos s vas = Inr s'"
  shows "coerente s'"
  using assms
proof (induction vas arbitrary: s)
  case Nil
  then show ?case by simp
next
  case (Cons va vas)
  from Cons.prems(2) obtain s1 r where a: "acessar s va = Inr (s1, r)"
    and b: "acessar_todos s1 vas = Inr s'"
    by (auto split: sum.splits)
  from coerente_acessar [OF Cons.prems(1) a] b show ?case by (rule Cons.IH)
qed

lemma alcancavel_coerente:
  "acessar_todos (MemoryManager_init n alg store) vas = Inr s \<Longrightarrow> coerente s"
  using coerente_init by (rule coerente_acessar_todos)

lemma carrega_store_200:
  assumes "backing_store s = store_200" "0 \<le> p" "p < 256"
  shows "carrega_pagina s p = Inr (replicate 256 200)"
proof -
  from assms(2,3) have "nat (p * 256) + 256 \<le> 65536" by simp
  then have "min 256 (65536 - nat (p * 256)) = 256" by simp
  with assms show ?thesis
    by (simp add: carrega_pagina_def store_200_def page_size_def)
qed

lemma replicate_4: "replicate 4 x = [x, x, x, x]"
  by (simp add: numeral_eq_Suc)

lemma upper_FIFO: "upper ''FIFO'' = ''FIFO''" by code_simp
lemma upper_LRU: "upper ''LRU'' = ''LRU''" by code_simp

lemmas avalia =
  acessar_def localiza_quadro_def tratar_page_fault_def substituicao_fifo_def
  substituicao_lru_def instala_pagina_def invalida_vitima_def min_uso_recente_def valida_def
  dividir_endereco_def ler_memoria_def remover_da_tlb_def atualiza_tlb_def buscar_na_tlb_def
  MemoryManager_init_def offset_bits_def tlb_size_def carrega_store_200 Let_def

section \<open>Address decomposition\<close>

lemma and_FFFF_take_bit: "v AND (0xFFFF :: int) = take_bit 16 v"
proof -
  have "(0xFFFF :: int) = mask 16" by (simp add: mask_eq_exp_minus_1)
  then show ?thesis by (simp add: take_bit_eq_mask)
qed

lemma and_FF_take_bit: "v AND (0xFF :: int) = take_bit 8 v"
proof -
  have "(0xFF :: int) = mask 8" by (simp add: mask_eq_exp_minus_1)
  then show ?thesis by (simp add: take_bit_eq_mask)
qed

lemma mask16_low8: "(v AND 0xFFFF) AND 255 = v AND (255 :: int)"
  by (simp add: and_FFFF_take_bit and_FF_take_bit)

lemma pagina_range:
  "0 \<le> drop_bit 8 (v AND (0xFFFF :: int)) \<and> drop_bit 8 (v AND (0xFFFF :: int)) < 256"
proof -
  define x where "x = take_bit 16 v"
  have "x < 2 ^ 16" unfolding x_def by (rule take_bit_int_less_exp)
  moreover have "0 \<le> x" unfolding x_def by simp
  ultimately have "0 \<le> x div 256 \<and> x div 256 < 256"
    by (simp add: pos_imp_zdiv_nonneg_iff div_less_iff_less_mult)
  then show ?thesis
    unfolding and_FFFF_take_bit x_def [symmetric] by (simp add: drop_bit_eq_div)
qed

lemma offset_range: "0 \<le> v AND (0xFF :: int) \<and> v AND (0xFF :: int) < 256"
proof -
  have "take_bit 8 v < (2 ^ 8 :: int)" by (rule take_bit_int_less_exp)
  then show ?thesis unfolding and_FF_take_bit by simp
qed

lemma dividir_endereco_eq:
  "dividir_endereco va = (drop_bit 8 (va AND 0xFFFF), va AND 0xFF)"
  by (simp add: dividir_endereco_def offset_bits_def Let_def mask16_low8)

text \<open>
  simulador\_v2.py's unmasked split agrees on the 16-bit addresses and differs beyond them.
\<close>

lemma obter_pagina_v2_sem_mascara:
  "(0 \<le> va \<and> va < 65536 \<longrightarrow>
      (obter_pagina_v2 va, obter_offset_v2 va) = dividir_endereco va)
   \<and> obter_pagina_v2 70000 = 273 \<and> fst (dividir_endereco 70000) = 17"
proof -
  have "take_bit 16 va = va" if "0 \<le> va" "va < 65536"
    using that by (simp add: take_bit_int_eq_self)
  then have "(obter_pagina_v2 va, obter_offset_v2 va) = dividir_endereco va"
    if "0 \<le> va" "va < 65536"
    using that
    by (simp add: obter_pagina_v2_def obter_offset_v2_def dividir_endereco_def Let_def
        and_FFFF_take_bit)
  moreover have "obter_pagina_v2 70000 = 273"
    by (simp add: obter_pagina_v2_def offset_bits_def drop_bit_eq_div)
  moreover have "fst (dividir_endereco 70000) = 17"
    by (simp add: dividir_endereco_eq and_FFFF_take_bit take_bit_eq_mod drop_bit_eq_div)
  ultimately show ?thesis by blast
qed

text \<open>
  Claim C8. For every virtual address, \<open>acessar\<close> first masks it to 16 bits and then splits it:
  the page number is \<open>(va AND 0xFFFF) >> 8\<close> and the offset is \<open>va AND 0xFF\<close>. The split is a
  total function of the address alone (no error case, no state), masking twice changes nothing,
  both parts lie in 0..255, and address 0x1234 gives page 18 and offset 52.
\<close>

theorem dividir_endereco_mask:
  "dividir_endereco va = (drop_bit 8 (va AND 0xFFFF), va AND 0xFF)
   \<and> dividir_endereco va = dividir_endereco (va AND 0xFFFF)
   \<and> 0 \<le> fst (dividir_endereco va) \<and> fst (dividir_endereco va) < 256
   \<and> 0 \<le> snd (dividir_endereco va) \<and> snd (dividir_endereco va) < 256
   \<and> dividir_endereco 0x1234 = (18, 52)"
proof -
  have i: "(va AND 0xFFFF) AND (0xFFFF :: int) = va AND 0xFFFF"
    by (simp add: and.assoc)
  have x: "dividir_endereco 0x1234 = (18, 52)"
    by (simp add: dividir_endereco_eq)
  show ?thesis
    using pagina_range [of va] offset_range [of va] x
    by (simp add: dividir_endereco_eq i mask16_low8)
qed

section \<open>TLB consistency\<close>

lemma nao_valida_fora_da_tlb:
  assumes "inv_tlb s" "\<not> valida s p"
  shows "buscar_na_tlb s p = None"
proof (cases "buscar_na_tlb s p")
  case None then show ?thesis .
next
  case (Some q)
  from hit_valida [OF assms(1) Some] assms(2) show ?thesis by (auto simp: valida_def)
qed

text \<open>
  Claim C1. In every state reached from a fresh \<open>MemoryManager\<close> by any sequence of
  successful \<open>acessar\<close> calls, each TLB entry names a page whose page-table entry is valid
  and holds the same frame; hence a page that is not valid has no TLB entry, and a page that a
  call evicts (valid before it, not valid after it) has no TLB entry in the resulting state.
\<close>

theorem tlb_entradas_validas:
  assumes "acessar_todos (MemoryManager_init n alg store) vas = Inr s"
  shows "(\<forall>entrada \<in> set (tlb s).
            \<exists>e. page_table s (tlb_pagina entrada) = Some e \<and> pte_valido e \<and>
                pte_quadro e = tlb_quadro entrada)
         \<and> (\<forall>p. \<not> valida s p \<longrightarrow> buscar_na_tlb s p = None)
         \<and> (\<forall>va s' r v. acessar s va = Inr (s', r) \<longrightarrow> valida s v \<longrightarrow> \<not> valida s' v \<longrightarrow>
               v \<notin> tlb_pagina ` set (tlb s'))"
proof -
  from alcancavel_coerente [OF assms] have c: "coerente s" .
  then have i: "inv_tlb s" by (simp add: coerente_def)
  have "v \<notin> tlb_pagina ` set (tlb s')"
    if "acessar s va = Inr (s', r)" "\<not> valida s' v" for va s' r v
  proof -
    from coerente_acessar [OF c that(1)] have "inv_tlb s'" by (simp add: coerente_def)
    from nao_valida_fora_da_tlb [OF this that(2)] show ?thesis
      by (simp add: buscar_na_tlb_def buscar_None_iff)
  qed
  with i nao_valida_fora_da_tlb [OF i] show ?thesis
    unfolding inv_tlb_def by blast
qed

theorem tlb_entradas_validas_witness:
  "\<exists>s s' r. acessar_todos (MemoryManager_init 4 ''FIFO'' store_200) [0, 256, 512, 768] = Inr s \<and>
      acessar s 1024 = Inr (s', r) \<and> valida s 0 \<and> \<not> valida s' 0 \<and>
      0 \<notin> tlb_pagina ` set (tlb s') \<and>
      (\<exists>e. page_table s 3 = Some e \<and> pte_valido e \<and> pte_quadro e = 3)"
proof -
  have "\<exists>s. acessar_todos (MemoryManager_init 4 ''FIFO'' store_200) [0, 256, 512, 768] = Inr s \<and>
       valida s 0 \<and> \<lparr>tlb_pagina = 3, tlb_quadro = 3\<rparr> \<in> set (tlb s) \<and>
       (\<exists>s' r. acessar s 1024 = Inr (s', r) \<and> \<not> valida s' 0)"
    by (simp add: avalia upper_FIFO replicate_4)
  then obtain s s' r where
    run: "acessar_todos (MemoryManager_init 4 ''FIFO'' store_200) [0, 256, 512, 768] = Inr s"
    and f: "valida s 0" "\<lparr>tlb_pagina = 3, tlb_quadro = 3\<rparr> \<in> set (tlb s)"
      "acessar s 1024 = Inr (s', r)" "\<not> valida s' 0"
    by blast
  from tlb_entradas_validas [OF run] f
  have "0 \<notin> tlb_pagina ` set (tlb s')"
    "\<exists>e. page_table s (tlb_pagina \<lparr>tlb_pagina = 3, tlb_quadro = 3\<rparr>) = Some e \<and> pte_valido e \<and>
         pte_quadro e = tlb_quadro \<lparr>tlb_pagina = 3, tlb_quadro = 3\<rparr>"
    by blast+
  with run f show ?thesis by auto
qed

section \<open>TLB capacity\<close>

text \<open>
  Claim C9. In every state reached from a fresh \<open>MemoryManager\<close> by any sequence of
  successful \<open>acessar\<close> calls, the TLB holds at most 16 entries.
\<close>

theorem tlb_capacidade:
  assumes "acessar_todos (MemoryManager_init n alg store) vas = Inr s"
  shows "length (tlb s) \<le> 16"
  using alcancavel_coerente [OF assms] by (simp add: coerente_def tlb_size_def)

lemma replicate_17:
  "replicate 17 x = [x, x, x, x, x, x, x, x, x, x, x, x, x, x, x, x, x]"
  by (simp add: numeral_eq_Suc)

theorem tlb_capacidade_witness:
  "\<exists>s. acessar_todos (MemoryManager_init 17 ''LRU'' store_200)
          [0, 256, 512, 768, 1024, 1280, 1536, 1792, 2048, 2304, 2560, 2816, 3072, 3328, 3584,
           3840, 4096] = Inr s \<and>
       length (tlb s) = 16 \<and> length (tlb s) \<le> 16"
proof -
  have "\<exists>s. acessar_todos (MemoryManager_init 17 ''LRU'' store_200)
          [0, 256, 512, 768, 1024, 1280, 1536, 1792, 2048, 2304, 2560, 2816, 3072, 3328, 3584,
           3840, 4096] = Inr s \<and> length (tlb s) = 16"
    by (simp add: avalia upper_LRU replicate_17)
  then obtain s where
    run: "acessar_todos (MemoryManager_init 17 ''LRU'' store_200)
          [0, 256, 512, 768, 1024, 1280, 1536, 1792, 2048, 2304, 2560, 2816, 3072, 3328, 3584,
           3840, 4096] = Inr s" and l: "length (tlb s) = 16"
    by blast
  from tlb_capacidade [OF run] run l show ?thesis by blast
qed

section \<open>Physical memory mirrors the backing store\<close>

lemma acessar_imutaveis:
  assumes "acessar s va = Inr (s', r)"
  shows "backing_store s' = backing_store s \<and> algoritmo s' = algoritmo s \<and>
         num_quadros s' = num_quadros s"
proof -
  obtain ef c where r: "r = (ef, c)" by (cases r)
  obtain p off where d: "dividir_endereco va = (p, off)" by (cases "dividir_endereco va")
  from assms [unfolded r] d show ?thesis
  proof (cases rule: acessar_cases)
    case (hit q)
    then show ?thesis by simp
  next
    case (tabela e)
    then show ?thesis by simp
  next
    case (falta s1 q)
    from falta(3) show ?thesis
      by (cases rule: tratar_page_fault_cases) (simp_all add: falta(4))
  qed
qed

lemma acessar_todos_append:
  "acessar_todos s (xs @ ys) =
     (case acessar_todos s xs of Inl e \<Rightarrow> Inl e | Inr s1 \<Rightarrow> acessar_todos s1 ys)"
  by (induction xs arbitrary: s) (auto split: sum.splits)

lemma acessar_todos_imutaveis:
  assumes "acessar_todos s vas = Inr s'"
  shows "backing_store s' = backing_store s \<and> algoritmo s' = algoritmo s \<and>
         num_quadros s' = num_quadros s"
  using assms
proof (induction vas arbitrary: s)
  case Nil
  then show ?case by simp
next
  case (Cons va vas)
  from Cons.prems obtain s1 r where a: "acessar s va = Inr (s1, r)"
    and b: "acessar_todos s1 vas = Inr s'"
    by (auto split: sum.splits)
  from acessar_imutaveis [OF a] Cons.IH [OF b] show ?case by simp
qed

lemma carrega_pagina_Inr:
  assumes "carrega_pagina s p = Inr page_data"
  shows "0 \<le> p" and "page_data = take 256 (drop (nat (p * 256)) (backing_store s))"
    and "length page_data = 256"
proof -
  from assms have "\<not> p * 256 < 0"
    by (auto simp: carrega_pagina_def page_size_def split: if_splits)
  then show "0 \<le> p" by (simp add: mult_less_0_iff)
  with assms show "page_data = take 256 (drop (nat (p * 256)) (backing_store s))"
    and "length page_data = 256"
    by (auto simp: carrega_pagina_def page_size_def Let_def split: if_splits)
qed


text \<open>
  Claim C4. In every state reached from a fresh \<open>MemoryManager\<close> by any sequence of
  successful \<open>acessar\<close> calls (evictions included), a page with a valid page-table entry has
  its frame inside physical memory, and that frame holds exactly the 256 bytes of the backing
  store that start at byte offset \<open>page * 256\<close>; the backing store itself never changes.
\<close>

theorem memoria_igual_backing_store:
  assumes "acessar_todos (MemoryManager_init n alg store) vas = Inr s"
    and "page_table s p = Some e" and "pte_valido e"
  shows "pte_quadro e < length (physical_memory s)
         \<and> physical_memory s ! pte_quadro e = Some (take 256 (drop (nat (p * 256)) store))
         \<and> length (take 256 (drop (nat (p * 256)) store)) = 256
         \<and> 0 \<le> p
         \<and> backing_store s = store"
proof -
  from alcancavel_coerente [OF assms(1)] have "inv_memoria s" by (simp add: coerente_def)
  with assms(2,3) obtain page_data where
    l: "pte_quadro e < length (physical_memory s)" and
    c: "carrega_pagina s p = Inr page_data" and
    m: "physical_memory s ! pte_quadro e = Some page_data"
    by (auto simp: inv_memoria_def)
  from acessar_todos_imutaveis [OF assms(1)] have b: "backing_store s = store"
    by (simp add: MemoryManager_init_def)
  note d = carrega_pagina_Inr [OF c]
  from d(2) b have pd: "page_data = take 256 (drop (nat (p * 256)) store)" by blast
  with d(3) have "length (take 256 (drop (nat (p * 256)) store)) = 256" by blast
  with d(1) pd l m b show ?thesis by blast
qed

theorem memoria_igual_backing_store_witness:
  "\<exists>s e. acessar_todos (MemoryManager_init 4 ''FIFO'' store_200) [0, 256, 512, 768, 1024] = Inr s \<and>
      page_table s 4 = Some e \<and> pte_valido e \<and> pte_quadro e = 0 \<and>
      physical_memory s ! 0 = Some (take 256 (drop 1024 store_200))"
proof -
  have "\<exists>s. acessar_todos (MemoryManager_init 4 ''FIFO'' store_200) [0, 256, 512, 768, 1024] = Inr s \<and>
       page_table s 4 = Some \<lparr>pte_quadro = 0, pte_valido = True\<rparr>"
    by (simp add: avalia upper_FIFO replicate_4)
  then obtain s where
    run: "acessar_todos (MemoryManager_init 4 ''FIFO'' store_200) [0, 256, 512, 768, 1024] = Inr s"
    and e: "page_table s 4 = Some \<lparr>pte_quadro = 0, pte_valido = True\<rparr>"
    by blast
  from memoria_igual_backing_store [OF run e] run e show ?thesis by simp
qed


section \<open>One page per frame\<close>

text \<open>
  Claim C10. In every state reached from a fresh \<open>MemoryManager\<close> by any sequence of
  successful \<open>acessar\<close> calls, two distinct pages with valid page-table entries name
  distinct frames, and \<open>quadros\<close> records each of the two pages at its own frame.
\<close>

theorem quadros_distintos:
  assumes "acessar_todos (MemoryManager_init n alg store) vas = Inr s"
    and "page_table s p1 = Some e1" and "pte_valido e1"
    and "page_table s p2 = Some e2" and "pte_valido e2"
    and "p1 \<noteq> p2"
  shows "pte_quadro e1 \<noteq> pte_quadro e2
         \<and> quadros s ! pte_quadro e1 = Some p1 \<and> quadros s ! pte_quadro e2 = Some p2"
proof -
  from alcancavel_coerente [OF assms(1)] have "inv_quadros s" by (simp add: coerente_def)
  with assms(2-5) have "quadros s ! pte_quadro e1 = Some p1" "quadros s ! pte_quadro e2 = Some p2"
    by (simp_all add: inv_quadros_def)
  with assms(6) show ?thesis by auto
qed

theorem quadros_distintos_witness:
  "\<exists>s e1 e2. acessar_todos (MemoryManager_init 4 ''FIFO'' store_200) [0, 256, 512, 768, 1024] = Inr s \<and>
      page_table s 4 = Some e1 \<and> pte_valido e1 \<and> page_table s 1 = Some e2 \<and> pte_valido e2 \<and>
      pte_quadro e1 \<noteq> pte_quadro e2 \<and> quadros s ! pte_quadro e1 = Some 4"
proof -
  have "\<exists>s. acessar_todos (MemoryManager_init 4 ''FIFO'' store_200) [0, 256, 512, 768, 1024] = Inr s \<and>
       page_table s 4 = Some \<lparr>pte_quadro = 0, pte_valido = True\<rparr> \<and>
       page_table s 1 = Some \<lparr>pte_quadro = 1, pte_valido = True\<rparr>"
    by (simp add: avalia upper_FIFO replicate_4)
  then obtain s where
    run: "acessar_todos (MemoryManager_init 4 ''FIFO'' store_200) [0, 256, 512, 768, 1024] = Inr s"
    and e: "page_table s 4 = Some \<lparr>pte_quadro = 0, pte_valido = True\<rparr>"
      "page_table s 1 = Some \<lparr>pte_quadro = 1, pte_valido = True\<rparr>"
    by blast
  have "(4 :: int) \<noteq> 1" by simp
  from quadros_distintos [OF run e(1) _ e(2) _ this] run e show ?thesis by simp
qed

section \<open>Repeating an access\<close>

lemma ler_memoria_cong:
  "physical_memory s = physical_memory t \<Longrightarrow> ler_memoria s q off = ler_memoria t q off"
  by (simp add: ler_memoria_def)

lemma acessar_deixa_na_tlb:
  assumes "acessar s va = Inr (s', ef, c)" and "dividir_endereco va = (p, off)"
  shows "\<exists>q. buscar_na_tlb s' p = Some q \<and> ef = push_bit offset_bits (int q) OR off \<and>
             ler_memoria s' q off = Inr c"
proof -
  have novo: "buscar_entradas (tl X @ [\<lparr>tlb_pagina = p, tlb_quadro = q\<rparr>]) p = Some q"
    "buscar_entradas (X @ [\<lparr>tlb_pagina = p, tlb_quadro = q\<rparr>]) p = Some q"
    if "p \<notin> tlb_pagina ` set X" for X q
  proof -
    from that have "p \<notin> tlb_pagina ` set (tl X)" by (auto dest: set_tl_subset)
    with that have "buscar_entradas (tl X) p = None" "buscar_entradas X p = None"
      by (simp_all add: buscar_None_iff)
    then show "buscar_entradas (tl X @ [\<lparr>tlb_pagina = p, tlb_quadro = q\<rparr>]) p = Some q"
      "buscar_entradas (X @ [\<lparr>tlb_pagina = p, tlb_quadro = q\<rparr>]) p = Some q"
      by (simp_all add: buscar_append)
  qed
  from assms show ?thesis
  proof (cases rule: acessar_cases)
    case (hit q)
    then show ?thesis by (auto simp: buscar_na_tlb_def)
  next
    case (tabela e)
    from tabela(1) have "p \<notin> tlb_pagina ` set (tlb s)"
      by (simp add: buscar_na_tlb_def buscar_None_iff)
    from novo [OF this, of "pte_quadro e"] tabela show ?thesis
      by (auto simp: buscar_na_tlb_def)
  next
    case (falta s1 q)
    from falta(1) have n: "p \<notin> tlb_pagina ` set (tlb s)"
      by (simp add: buscar_na_tlb_def buscar_None_iff)
    then have n': "p \<notin> tlb_pagina ` set (filter P (tlb s))" for P by auto
    from falta(3) have "buscar_na_tlb s' p = Some q"
    proof (cases rule: tratar_page_fault_cases)
      case (livre page_data)
      with novo [OF n, of q] falta(4) show ?thesis by (simp add: buscar_na_tlb_def)
    next
      case (fifo v resto e page_data)
      with novo [OF n', of _ q] falta(4) show ?thesis by (simp add: buscar_na_tlb_def)
    next
      case (lru v e page_data)
      with novo [OF n', of _ q] falta(4) show ?thesis by (simp add: buscar_na_tlb_def)
    qed
    with falta show ?thesis by auto
  qed
qed


text \<open>
  Claim C5. From any state, when \<open>acessar\<close> succeeds on a virtual address, calling it again
  on the same address in the resulting state succeeds as a TLB hit: it returns the identical
  pair (physical address, value) and leaves \<open>page_faults\<close> unchanged.
\<close>

theorem acessar_repetido:
  assumes "acessar s va = Inr (s1, r1)"
  shows "\<exists>s2. acessar s1 va = Inr (s2, r1) \<and> page_faults s2 = page_faults s1 \<and>
              tlb_hits s2 = tlb_hits s1 + 1"
proof -
  obtain ef c where r: "r1 = (ef, c)" by (cases r1)
  obtain p off where d: "dividir_endereco va = (p, off)" by (cases "dividir_endereco va")
  from acessar_deixa_na_tlb [OF assms [unfolded r] d] obtain q where
    q: "buscar_na_tlb s1 p = Some q" "ef = push_bit offset_bits (int q) OR off"
      "ler_memoria s1 q off = Inr c" by blast
  define s2 where "s2 = toca_lru p ((conta_acesso s1)\<lparr>tlb_hits := tlb_hits s1 + 1\<rparr>)"
  have "ler_memoria s2 q off = ler_memoria s1 q off"
    by (rule ler_memoria_cong) (simp add: s2_def)
  with q have "acessar s1 va = Inr (s2, r1)"
    by (simp add: acessar_unfold d localiza_quadro_def buscar_na_tlb_def conta_acesso_def r s2_def)
  moreover have "page_faults s2 = page_faults s1" "tlb_hits s2 = tlb_hits s1 + 1"
    by (simp_all add: s2_def)
  ultimately show ?thesis by blast
qed

theorem acessar_repetido_witness:
  "\<exists>s1 s2 r. acessar (MemoryManager_init 4 ''LRU'' store_200) 4660 = Inr (s1, r) \<and>
      acessar s1 4660 = Inr (s2, r) \<and> page_faults s1 = 1 \<and> page_faults s2 = 1 \<and>
      r = (52, -56)"
proof -
  have "\<exists>s1 r. acessar (MemoryManager_init 4 ''LRU'' store_200) 4660 = Inr (s1, r) \<and>
          page_faults s1 = 1 \<and> r = (52, -56)"
    by (simp add: avalia upper_LRU replicate_4)
  then obtain s1 r where a: "acessar (MemoryManager_init 4 ''LRU'' store_200) 4660 = Inr (s1, r)"
    and b: "page_faults s1 = 1" "r = (52, -56)" by blast
  from acessar_repetido [OF a] a b show ?thesis by auto
qed


section \<open>Signed byte values\<close>

lemma signed_shift_256:
  assumes "0 \<le> (x::int)" "x < 256"
  shows "(x + 128) mod 256 - 128 = (if x > 127 then x - 256 else x)"
proof (cases "x > 127")
  case True
  with assms have "(x - 128) mod 256 = x - 128" by (intro mod_pos_pos_trivial) simp_all
  moreover have "x + 128 = x - 128 + 256" by simp
  ultimately have "(x + 128) mod 256 = x - 128" by (simp only: mod_add_self2)
  with True show ?thesis by simp
next
  case False
  with assms have "(x + 128) mod 256 = x + 128" by (intro mod_pos_pos_trivial) simp_all
  with False show ?thesis by simp
qed

lemma sint_byte: "sint (b :: byte) = (if uint b > 127 then uint b - 256 else uint b)"
proof -
  have s: "sint b = (uint b + 128) mod 256 - 128"
    by (simp add: sint_uint signed_take_bit_eq_take_bit_shift take_bit_eq_mod)
  have "0 \<le> uint b" "uint b < 256"
    using uint_lt2p [of b] by simp_all
  from signed_shift_256 [OF this] s show ?thesis by simp
qed

text \<open>
  simulador\_v2.py reads the same byte without the conversion: there 200 is reported as 200.
\<close>

lemma ler_memoria_v2_sem_sinal:
  "ler_memoria_v2 (s\<lparr>physical_memory := [Some [200]]\<rparr>) 0 0 = Inr 200
   \<and> ler_memoria (s\<lparr>physical_memory := [Some [200]]\<rparr>) 0 0 = Inr (-56)"
  by (simp add: ler_memoria_v2_def ler_memoria_def)

text \<open>
  Claim C6. The value returned by a successful \<open>acessar\<close> is the byte stored in physical
  memory at the returned frame and the address's offset, read as a signed 8-bit two's-complement
  number: \<open>rawByte - 256\<close> when \<open>rawByte > 127\<close>, else \<open>rawByte\<close>. A stored byte of 200 is
  reported as -56.
\<close>

theorem conteudo_com_sinal:
  assumes "acessar s va = Inr (s', ef, c)"
  shows "\<exists>q page_data.
           ef = push_bit 8 (int q) OR (va AND 0xFF) \<and>
           q < length (physical_memory s') \<and> physical_memory s' ! q = Some page_data \<and>
           nat (va AND 0xFF) < length page_data \<and>
           c = (let rawByte = uint (page_data ! nat (va AND 0xFF))
                in if rawByte > 127 then rawByte - 256 else rawByte) \<and>
           c = sint (page_data ! nat (va AND 0xFF))"
proof -
  have d: "dividir_endereco va = (drop_bit 8 (va AND 0xFFFF), va AND 0xFF)"
    by (rule dividir_endereco_eq)
  from offset_range [of va] have o: "0 \<le> va AND 0xFF" by simp
  from acessar_deixa_na_tlb [OF assms d] obtain q where
    q: "ef = push_bit offset_bits (int q) OR (va AND 0xFF)"
      "ler_memoria s' q (va AND 0xFF) = Inr c" by blast
  from q(2) o obtain page_data where
    pd: "q < length (physical_memory s')" "physical_memory s' ! q = Some page_data"
    "va AND 0xFF < int (length page_data)"
    "c = (let rawByte = uint (page_data ! nat (va AND 0xFF))
          in if rawByte > 127 then rawByte - 256 else rawByte)"
    by (auto simp: ler_memoria_def Let_def split: if_splits option.splits)
  from pd(3) o have "nat (va AND 0xFF) < length page_data" by linarith
  moreover note pd(1,2,4)
  moreover from pd(4) have "c = sint (page_data ! nat (va AND 0xFF))"
    by (simp add: sint_byte Let_def)
  ultimately show ?thesis using q(1) by (auto simp: offset_bits_def)
qed

theorem conteudo_com_sinal_witness:
  "\<exists>s' ef q page_data.
      acessar (MemoryManager_init 4 ''FIFO'' store_200) 4660 = Inr (s', ef, -56) \<and>
      ef = push_bit 8 (int q) OR (4660 AND 0xFF) \<and>
      physical_memory s' ! q = Some page_data \<and>
      -56 = sint (page_data ! nat (4660 AND 0xFF)) \<and>
      sint (200 :: byte) = -56"
proof -
  have "\<exists>s' ef. acessar (MemoryManager_init 4 ''FIFO'' store_200) 4660 = Inr (s', ef, -56)"
    by (simp add: avalia upper_FIFO replicate_4)
  then obtain s' ef where
    a: "acessar (MemoryManager_init 4 ''FIFO'' store_200) 4660 = Inr (s', ef, -56)" by blast
  have "sint (200 :: byte) = -56" by simp
  with conteudo_com_sinal [OF a] a show ?thesis by blast
qed

section \<open>Page faults, step by step\<close>

lemma acessar_relogio:
  assumes "acessar s va = Inr (s', r)"
  shows "clock s' = Suc (clock s) \<and> acessos s' = Suc (acessos s)"
proof -
  obtain ef c where r: "r = (ef, c)" by (cases r)
  obtain p off where d: "dividir_endereco va = (p, off)" by (cases "dividir_endereco va")
  from assms [unfolded r] d show ?thesis
  proof (cases rule: acessar_cases)
    case (hit q)
    then show ?thesis by simp
  next
    case (tabela e)
    then show ?thesis by simp
  next
    case (falta s1 q)
    from falta(3) show ?thesis
      by (cases rule: tratar_page_fault_cases) (simp_all add: falta(4))
  qed
qed

lemma acessar_sem_falta:
  assumes "coerente s" "dividir_endereco va = (p, off)" "acessar s va = Inr (s', r)"
    and "valida s p"
  shows "page_table s' = page_table s \<and> quadros s' = quadros s \<and>
         physical_memory s' = physical_memory s \<and> fifo_queue s' = fifo_queue s \<and>
         page_faults s' = page_faults s \<and>
         uso_recente s' =
           (if algoritmo s = ''LRU'' then AList.update p (Suc (clock s)) (uso_recente s)
            else uso_recente s)"
proof -
  obtain ef c where r: "r = (ef, c)" by (cases r)
  from assms(3) [unfolded r] assms(2) show ?thesis
  proof (cases rule: acessar_cases)
    case (hit q)
    then show ?thesis by simp
  next
    case (tabela e)
    then show ?thesis by simp
  next
    case (falta s1 q)
    with assms(4) show ?thesis by simp
  qed
qed

lemma acessar_falta:
  assumes "coerente s" "dividir_endereco va = (p, off)" "acessar s va = Inr (s', r)"
    and "\<not> valida s p"
  obtains s1 q where
    "tratar_page_fault ((conta_acesso s)\<lparr>page_faults := page_faults s + 1\<rparr>) p = Inr (s1, q)"
    "s' = toca_lru p (atualiza_tlb
            (s1\<lparr>page_table := (page_table s1)(p \<mapsto> \<lparr>pte_quadro = q, pte_valido = True\<rparr>)\<rparr>)
            p q)"
proof -
  obtain ef c where r: "r = (ef, c)" by (cases r)
  from assms(1) have i: "inv_tlb s" by (simp add: coerente_def)
  from assms(3) [unfolded r] assms(2) show thesis
  proof (cases rule: acessar_cases)
    case (hit q)
    from hit_valida [OF i hit(1)] assms(4) show ?thesis by (auto simp: valida_def)
  next
    case (tabela e)
    with assms(4) show ?thesis by (simp add: valida_def)
  next
    case (falta s1 q)
    then show ?thesis by (intro that)
  qed
qed

lemma fifo_falta_livre:
  assumes "coerente s" "dividir_endereco va = (p, off)" "acessar s va = Inr (s', r)"
    and "\<not> valida s p" and "index_None (quadros s) = Some q"
  shows "quadros s' = (quadros s)[q := Some p] \<and>
         page_table s' = (page_table s)(p \<mapsto> \<lparr>pte_quadro = q, pte_valido = True\<rparr>) \<and>
         {x. valida s' x} = insert p {x. valida s x} \<and>
         page_faults s' = Suc (page_faults s) \<and>
         fifo_queue s' = (if algoritmo s = ''FIFO'' then fifo_queue s @ [p] else fifo_queue s) \<and>
         uso_recente s' =
           (if algoritmo s = ''LRU'' then AList.update p (Suc (clock s)) (uso_recente s)
            else uso_recente s)"
  using assms(1-4)
proof (cases rule: acessar_falta)
  case (1 s1 q')
  from 1(1) show ?thesis
  proof (cases rule: tratar_page_fault_cases)
    case (livre page_data)
    with assms(5) have qq: "q' = q" by simp
    from 1(2) livre(5) have pt:
      "page_table s' = (page_table s)(p \<mapsto> \<lparr>pte_quadro = q', pte_valido = True\<rparr>)"
      by simp
    from validas_carga [OF pt] pt 1(2) livre(5) qq show ?thesis by simp
  next
    case (fifo v resto e page_data)
    with assms(5) show ?thesis by simp
  next
    case (lru v e page_data)
    with assms(5) show ?thesis by simp
  qed
qed

lemma fifo_falta_cheia:
  assumes "coerente s" "dividir_endereco va = (p, off)" "acessar s va = Inr (s', r)"
    and "\<not> valida s p" and "index_None (quadros s) = None" and "algoritmo s = ''FIFO''"
  shows "\<exists>v resto e. fifo_queue s = v # resto \<and> fifo_queue s' = resto @ [p] \<and>
           valida s v \<and> \<not> valida s' v \<and> v \<noteq> p \<and> valida s' p \<and>
           page_table s v = Some e \<and>
           page_table s' = (page_table s)(v \<mapsto> e\<lparr>pte_valido := False\<rparr>,
                              p \<mapsto> \<lparr>pte_quadro = pte_quadro e, pte_valido = True\<rparr>) \<and>
           quadros s' = (quadros s)[pte_quadro e := Some p] \<and>
           {x. valida s' x} = insert p ({x. valida s x} - {v}) \<and>
           page_faults s' = Suc (page_faults s)"
  using assms(1-4)
proof (cases rule: acessar_falta)
  case (1 s1 q)
  from 1(1) show ?thesis
  proof (cases rule: tratar_page_fault_cases)
    case (livre page_data)
    with assms(5) show ?thesis by simp
  next
    case (fifo v resto e page_data)
    from assms(1,6) have i: "set (fifo_queue s) = {x. valida s x}"
      by (simp add: coerente_def inv_fila_def)
    from fifo(3) have fq: "fifo_queue s = v # resto" by simp
    with i have vv: "valida s v" by auto
    with assms(4) have ne: "v \<noteq> p" by auto
    from fifo(4) have pv: "page_table s v = Some e" by simp
    with 1(2) fifo(9) fifo(5) have pt: "page_table s' =
             (page_table s)(v \<mapsto> e\<lparr>pte_valido := False\<rparr>,
                            p \<mapsto> \<lparr>pte_quadro = pte_quadro e, pte_valido = True\<rparr>)"
      and f: "fifo_queue s' = resto @ [p]"
      and qs: "quadros s' = (quadros s)[pte_quadro e := Some p]"
      and pf: "page_faults s' = Suc (page_faults s)" by simp_all
    from pt ne have "\<not> valida s' v" "valida s' p" by (simp_all add: valida_def)
    with fq f vv ne pv pt qs pf validas_troca [OF pt ne] show ?thesis by blast
  next
    case (lru v e page_data)
    with assms(6) show ?thesis by simp
  qed
qed

section \<open>FIFO replacement\<close>

lemma fifo_validas:
  assumes "coerente s" "algoritmo s = ''FIFO''"
  shows "valida s x \<longleftrightarrow> x \<in> set (fifo_queue s)"
  using assms by (auto simp: coerente_def inv_fila_def)

lemma fifo_carga_passo:
  assumes "coerente s" "algoritmo s = ''FIFO''" "dividir_endereco va = (p, off)"
    and "acessar s va = Inr (s', r)" and "p \<notin> set (fifo_queue s)"
    and "index_None (quadros s) = Some q"
  shows "coerente s'" and "algoritmo s' = ''FIFO''"
    and "quadros s' = (quadros s)[q := Some p]" and "fifo_queue s' = fifo_queue s @ [p]"
proof -
  from assms(5) fifo_validas [OF assms(1,2)] have nv: "\<not> valida s p" by simp
  from coerente_acessar [OF assms(1,4)] show "coerente s'" .
  from acessar_imutaveis [OF assms(4)] assms(2) show "algoritmo s' = ''FIFO''" by simp
  from fifo_falta_livre [OF assms(1,3,4) nv assms(6)] assms(2)
  show "quadros s' = (quadros s)[q := Some p]" "fifo_queue s' = fifo_queue s @ [p]"
    by simp_all
qed

lemma fifo_cenario:
  assumes u: "upper alg = ''FIFO''"
    and d: "distinct [p0, p1, p2, p3, p4]"
    and a: "dividir_endereco a0 = (p0, o0)" "dividir_endereco a1 = (p1, o1)"
      "dividir_endereco a2 = (p2, o2)" "dividir_endereco a3 = (p3, o3)"
      "dividir_endereco a4 = (p4, o4)"
    and run: "acessar_todos (MemoryManager_init 4 alg store) [a0, a1, a2, a3] = Inr s"
    and step: "acessar s a4 = Inr (s', r)"
  shows "fifo_queue s = [p0, p1, p2, p3] \<and> {x. valida s x} = {p0, p1, p2, p3} \<and>
         index_None (quadros s) = None \<and>
         fifo_queue s' = [p1, p2, p3, p4] \<and> {x. valida s' x} = {p1, p2, p3, p4} \<and>
         \<not> valida s' p0"
proof -
  define s0 where "s0 = MemoryManager_init 4 alg store"
  have c0: "coerente s0" unfolding s0_def by (rule coerente_init)
  have f0: "algoritmo s0 = ''FIFO''" "fifo_queue s0 = []"
    "quadros s0 = [None, None, None, None]"
    by (simp_all add: s0_def MemoryManager_init_def u replicate_4)
  from run obtain s1 s2 s3 r0 r1 r2 r3 where
    st: "acessar s0 a0 = Inr (s1, r0)" "acessar s1 a1 = Inr (s2, r1)"
      "acessar s2 a2 = Inr (s3, r2)" "acessar s3 a3 = Inr (s, r3)"
    unfolding s0_def [symmetric] by (auto split: sum.splits)
  have i0: "index_None (quadros s0) = Some 0" by (simp add: f0)
  have m0: "p0 \<notin> set (fifo_queue s0)" by (simp add: f0)
  note n1 = fifo_carga_passo [OF c0 f0(1) a(1) st(1) m0 i0]
  have q1: "fifo_queue s1 = [p0]" "quadros s1 = [Some p0, None, None, None]"
    using n1(3,4) by (simp_all add: f0)
  have i1: "index_None (quadros s1) = Some 1" by (simp add: q1)
  have m1: "p1 \<notin> set (fifo_queue s1)" using d by (auto simp: q1)
  note n2 = fifo_carga_passo [OF n1(1,2) a(2) st(2) m1 i1]
  have q2: "fifo_queue s2 = [p0, p1]" "quadros s2 = [Some p0, Some p1, None, None]"
    using n1 n2(3,4) by (simp_all add: f0 q1)
  have i2: "index_None (quadros s2) = Some 2" by (simp add: q2)
  have m2: "p2 \<notin> set (fifo_queue s2)" using d by (auto simp: q2)
  note n3 = fifo_carga_passo [OF n2(1,2) a(3) st(3) m2 i2]
  have q3: "fifo_queue s3 = [p0, p1, p2]" "quadros s3 = [Some p0, Some p1, Some p2, None]"
    using n3(3,4) by (simp_all add: q2 numeral_2_eq_2)
  have i3: "index_None (quadros s3) = Some 3" by (simp add: q3 numeral_3_eq_3)
  have m3: "p3 \<notin> set (fifo_queue s3)" using d by (auto simp: q3)
  note n4 = fifo_carga_passo [OF n3(1,2) a(4) st(4) m3 i3]
  have q4: "fifo_queue s = [p0, p1, p2, p3]"
    "quadros s = [Some p0, Some p1, Some p2, Some p3]"
    using n4(3,4) by (simp_all add: q3 numeral_3_eq_3)
  have i4: "index_None (quadros s) = None" by (simp add: q4)
  have v4: "{x. valida s x} = {p0, p1, p2, p3}"
    using fifo_validas [OF n4(1,2)] by (auto simp: q4)
  then have nv: "\<not> valida s p4" using d by auto
  from fifo_falta_cheia [OF n4(1) a(5) step nv i4 n4(2)] obtain v resto where
    e: "fifo_queue s = v # resto" "fifo_queue s' = resto @ [p4]" "\<not> valida s' v"
      "{x. valida s' x} = insert p4 ({x. valida s x} - {v})"
    by blast
  from e(1) q4 have vr: "v = p0" "resto = [p1, p2, p3]" by simp_all
  from e(4) v4 vr d have "{x. valida s' x} = {p1, p2, p3, p4}" by auto
  with q4 v4 i4 e(2,3) vr show ?thesis by simp
qed

lemma fifo_passo_ordem:
  assumes c: "coerente s" and f: "algoritmo s = ''FIFO''" and a: "acessar s va = Inr (s', r)"
  shows "fifo_queue s' =
           filter (valida s') (fifo_queue s)
           @ (if valida s (fst (dividir_endereco va)) then [] else [fst (dividir_endereco va)])"
proof -
  obtain p off where d: "dividir_endereco va = (p, off)" by (cases "dividir_endereco va")
  from c f have i: "set (fifo_queue s) = {x. valida s x}" "distinct (fifo_queue s)"
    by (simp_all add: coerente_def inv_fila_def)
  show ?thesis
  proof (cases "valida s p")
    case True
    from acessar_sem_falta [OF c d a True]
    have "fifo_queue s' = fifo_queue s" and "page_table s' = page_table s"
      by simp_all
    from this(1) valida_page_table [OF this(2)]
    have "fifo_queue s' = fifo_queue s" "valida s' = valida s" .
    with i True d show ?thesis by simp
  next
    case False
    show ?thesis
    proof (cases "index_None (quadros s)")
      case (Some q)
      from fifo_falta_livre [OF c d a False Some] f
      have "fifo_queue s' = fifo_queue s @ [p]" "{x. valida s' x} = insert p {x. valida s x}"
        by simp_all
      then have q: "fifo_queue s' = fifo_queue s @ [p]"
        and "\<forall>x \<in> set (fifo_queue s). valida s' x"
        using i(1) by auto
      then have "filter (valida s') (fifo_queue s) = fifo_queue s"
        by (simp add: filter_id_conv)
      with q False d show ?thesis by simp
    next
      case None
      from fifo_falta_cheia [OF c d a False None f] obtain v resto where
        e: "fifo_queue s = v # resto" "fifo_queue s' = resto @ [p]" "\<not> valida s' v"
          "{x. valida s' x} = insert p ({x. valida s x} - {v})"
        by blast
      from e(1) i have "set resto = {x. valida s x} - {v}" by auto
      with e(4) have "\<forall>x \<in> set resto. valida s' x" by auto
      then have "filter (valida s') resto = resto" by (simp add: filter_id_conv)
      with e False d show ?thesis by simp
    qed
  qed
qed

lemma fifo_fila_em_ordem_de_carga:
  assumes "coerente s" "algoritmo s = ''FIFO''"
    and "residentes_por_carga s (fifo_queue s) vas = Inr (s', ordem)"
  shows "fifo_queue s' = ordem \<and> acessar_todos s vas = Inr s'"
  using assms
proof (induction vas arbitrary: s)
  case Nil
  then show ?case by auto
next
  case (Cons va vas)
  from Cons.prems(3) obtain s1 r where a: "acessar s va = Inr (s1, r)"
    by (auto split: sum.splits)
  from coerente_acessar [OF Cons.prems(1) a] have c1: "coerente s1" .
  from acessar_imutaveis [OF a] Cons.prems(2) have f1: "algoritmo s1 = ''FIFO''" by simp
  from Cons.prems(3) a
  have "residentes_por_carga s1
          (filter (valida s1) (fifo_queue s)
           @ (if valida s (fst (dividir_endereco va)) then [] else [fst (dividir_endereco va)]))
          vas = Inr (s', ordem)"
    by simp
  then have "residentes_por_carga s1 (fifo_queue s1) vas = Inr (s', ordem)"
    by (simp only: fifo_passo_ordem [OF Cons.prems(1,2) a])
  from Cons.IH [OF c1 f1 this] a show ?case by simp
qed

text \<open>
  Claim C3. Under the FIFO policy, in every state reached from a fresh \<open>MemoryManager\<close>,
  \<open>fifo_queue\<close> lists exactly the resident pages, without repetition; an access that does
  not fault leaves it unchanged, a fault served from a free frame appends the page at the tail,
  and a fault with no free frame evicts the page at the head, which is resident before and
  not after, and appends the new page. With 4 frames, any five distinct pages touched in order
  make the fifth access evict the first page and leave the other four resident. Along any
  run, \<open>fifo_queue\<close> equals the resident pages in the order in which they were loaded, so
  its head is the earliest page still resident.
\<close>

theorem fifo_vitima:
  "(acessar_todos (MemoryManager_init n alg store) vas = Inr s \<longrightarrow>
    algoritmo s = ''FIFO'' \<longrightarrow> dividir_endereco va = (p, off) \<longrightarrow>
    acessar s va = Inr (s', r) \<longrightarrow>
      set (fifo_queue s) = {x. valida s x} \<and> distinct (fifo_queue s) \<and>
      (valida s p \<longrightarrow> fifo_queue s' = fifo_queue s) \<and>
      (\<not> valida s p \<longrightarrow> (\<forall>q. index_None (quadros s) = Some q \<longrightarrow>
         fifo_queue s' = fifo_queue s @ [p])) \<and>
      (\<not> valida s p \<longrightarrow> index_None (quadros s) = None \<longrightarrow>
         (\<exists>v resto. fifo_queue s = v # resto \<and> valida s v \<and> \<not> valida s' v \<and>
            fifo_queue s' = resto @ [p] \<and>
            {x. valida s' x} = insert p ({x. valida s x} - {v}))))
   \<and>
   (upper alg4 = ''FIFO'' \<longrightarrow> distinct [p0, p1, p2, p3, p4] \<longrightarrow>
    dividir_endereco a0 = (p0, o0) \<longrightarrow> dividir_endereco a1 = (p1, o1) \<longrightarrow>
    dividir_endereco a2 = (p2, o2) \<longrightarrow> dividir_endereco a3 = (p3, o3) \<longrightarrow>
    dividir_endereco a4 = (p4, o4) \<longrightarrow>
    acessar_todos (MemoryManager_init 4 alg4 store4) [a0, a1, a2, a3] = Inr s4 \<longrightarrow>
    acessar s4 a4 = Inr (s5, r5) \<longrightarrow>
      {x. valida s4 x} = {p0, p1, p2, p3} \<and> index_None (quadros s4) = None \<and>
      \<not> valida s5 p0 \<and> {x. valida s5 x} = {p1, p2, p3, p4})
   \<and>
   (upper algL = ''FIFO'' \<longrightarrow>
    residentes_por_carga (MemoryManager_init nL algL storeL) [] vasL = Inr (sL, ordem) \<longrightarrow>
      fifo_queue sL = ordem \<and>
      acessar_todos (MemoryManager_init nL algL storeL) vasL = Inr sL)"
proof (intro conjI impI)
  assume "upper algL = ''FIFO''"
    and "residentes_por_carga (MemoryManager_init nL algL storeL) [] vasL = Inr (sL, ordem)"
  then have "algoritmo (MemoryManager_init nL algL storeL) = ''FIFO''"
    and "residentes_por_carga (MemoryManager_init nL algL storeL)
           (fifo_queue (MemoryManager_init nL algL storeL)) vasL = Inr (sL, ordem)"
    by (simp_all add: MemoryManager_init_def)
  note o = fifo_fila_em_ordem_de_carga [OF coerente_init this]
  from o show "fifo_queue sL = ordem" by blast
  from o show "acessar_todos (MemoryManager_init nL algL storeL) vasL = Inr sL" by blast
next
  assume run: "acessar_todos (MemoryManager_init n alg store) vas = Inr s"
    and f: "algoritmo s = ''FIFO''" and d: "dividir_endereco va = (p, off)"
    and a: "acessar s va = Inr (s', r)"
  from alcancavel_coerente [OF run] have c: "coerente s" .
  with f show "set (fifo_queue s) = {x. valida s x}" "distinct (fifo_queue s)"
    by (simp_all add: coerente_def inv_fila_def)
  {
    assume "valida s p"
    from acessar_sem_falta [OF c d a this] show "fifo_queue s' = fifo_queue s" by simp
  }
  {
    assume nv: "\<not> valida s p"
    show "\<forall>q. index_None (quadros s) = Some q \<longrightarrow> fifo_queue s' = fifo_queue s @ [p]"
      using fifo_falta_livre [OF c d a nv] f by simp
    assume "index_None (quadros s) = None"
    from fifo_falta_cheia [OF c d a nv this f]
    show "\<exists>v resto. fifo_queue s = v # resto \<and> valida s v \<and> \<not> valida s' v \<and>
            fifo_queue s' = resto @ [p] \<and>
            {x. valida s' x} = insert p ({x. valida s x} - {v})"
      by blast
  }
next
  assume "upper alg4 = ''FIFO''" "distinct [p0, p1, p2, p3, p4]"
    "dividir_endereco a0 = (p0, o0)" "dividir_endereco a1 = (p1, o1)"
    "dividir_endereco a2 = (p2, o2)" "dividir_endereco a3 = (p3, o3)"
    "dividir_endereco a4 = (p4, o4)"
    "acessar_todos (MemoryManager_init 4 alg4 store4) [a0, a1, a2, a3] = Inr s4"
    "acessar s4 a4 = Inr (s5, r5)"
  note c = fifo_cenario [OF this]
  from c show "{x. valida s4 x} = {p0, p1, p2, p3}" by blast
  from c show "index_None (quadros s4) = None" by blast
  from c show "\<not> valida s5 p0" by blast
  from c show "{x. valida s5 x} = {p1, p2, p3, p4}" by blast
qed

theorem fifo_vitima_witness:
  "\<exists>s s' r. acessar_todos (MemoryManager_init 4 ''fifo'' store_200) [0, 256, 512, 768] = Inr s \<and>
      acessar s 1024 = Inr (s', r) \<and>
      fifo_queue s = [0, 1, 2, 3] \<and> \<not> valida s' 0 \<and> {x. valida s' x} = {1, 2, 3, 4} \<and>
      (\<exists>v resto. fifo_queue s = v # resto \<and> valida s v \<and> \<not> valida s' v \<and>
            fifo_queue s' = resto @ [4]) \<and>
      residentes_por_carga (MemoryManager_init 4 ''fifo'' store_200) []
        [0, 256, 512, 768, 1024] = Inr (s', [1, 2, 3, 4]) \<and>
      fifo_queue s' = [1, 2, 3, 4]"
proof -
  have u: "upper ''fifo'' = ''FIFO''" by code_simp
  have "\<exists>s. acessar_todos (MemoryManager_init 4 ''fifo'' store_200) [0, 256, 512, 768] = Inr s \<and>
       algoritmo s = ''FIFO'' \<and> \<not> valida s 4 \<and> index_None (quadros s) = None \<and>
       fifo_queue s = [0, 1, 2, 3] \<and> (\<exists>s' r. acessar s 1024 = Inr (s', r))"
    by (simp add: avalia u replicate_4)
  then obtain s s' r where
    run: "acessar_todos (MemoryManager_init 4 ''fifo'' store_200) [0, 256, 512, 768] = Inr s"
    and f: "algoritmo s = ''FIFO''" "\<not> valida s 4" "index_None (quadros s) = None"
      "fifo_queue s = [0, 1, 2, 3]"
    and a: "acessar s 1024 = Inr (s', r)"
    by blast
  have d: "dividir_endereco 0 = (0, 0)" "dividir_endereco 256 = (1, 0)"
    "dividir_endereco 512 = (2, 0)" "dividir_endereco 768 = (3, 0)"
    "dividir_endereco 1024 = (4, 0)"
    by (simp_all add: dividir_endereco_eq)
  have di: "distinct [0, 1, 2, 3, 4 :: int]" by simp
  from fifo_vitima [THEN conjunct1, rule_format, OF run f(1) d(5) a]
  have "\<not> valida s 4 \<longrightarrow> index_None (quadros s) = None \<longrightarrow>
         (\<exists>v resto. fifo_queue s = v # resto \<and> valida s v \<and> \<not> valida s' v \<and>
            fifo_queue s' = resto @ [4] \<and>
            {x. valida s' x} = insert 4 ({x. valida s x} - {v}))"
    by (rule conjunct2 [THEN conjunct2, THEN conjunct2, THEN conjunct2])
  with f(2,3) have t1: "\<exists>v resto. fifo_queue s = v # resto \<and> valida s v \<and> \<not> valida s' v \<and>
            fifo_queue s' = resto @ [4]"
    by blast
  from fifo_vitima [THEN conjunct2, THEN conjunct1, rule_format, OF u di d run a]
  have t2: "\<not> valida s' 0" "{x. valida s' x} = {1, 2, 3, 4}"
    by simp_all
  have "\<exists>sL. residentes_por_carga (MemoryManager_init 4 ''fifo'' store_200) []
        [0, 256, 512, 768, 1024] = Inr (sL, [1, 2, 3, 4])"
    by (simp add: avalia u replicate_4)
  then obtain sL where
    o: "residentes_por_carga (MemoryManager_init 4 ''fifo'' store_200) []
        [0, 256, 512, 768, 1024] = Inr (sL, [1, 2, 3, 4])"
    by blast
  from fifo_vitima [THEN conjunct2, THEN conjunct2, rule_format, OF u o]
  have q: "fifo_queue sL = [1, 2, 3, 4]"
    and "acessar_todos (MemoryManager_init 4 ''fifo'' store_200) [0, 256, 512, 768, 1024] = Inr sL"
    by simp_all
  moreover from run a
  have "acessar_todos (MemoryManager_init 4 ''fifo'' store_200) ([0, 256, 512, 768] @ [1024])
          = Inr s'"
    by (simp only: acessar_todos_append sum.case acessar_todos.simps prod.case)
  ultimately have "sL = s'" by simp
  with o q t1 t2 run a f show ?thesis by blast
qed

section \<open>LRU replacement\<close>

lemma decompI:
  assumes "l = xs @ (m, t) # ys" "\<forall>(k', t') \<in> set xs. t < t'" "\<forall>(k', t') \<in> set ys. t \<le> t'"
  shows "\<exists>xs t ys. l = xs @ (m, t) # ys \<and>
      (\<forall>(k', t') \<in> set xs. t < t') \<and> (\<forall>(k', t') \<in> set ys. t \<le> (t' :: nat))"
  using assms by blast

lemma min_loop_decomp:
  "\<exists>xs t ys. b # resto = xs @ (min_loop b resto, t) # ys \<and>
      (\<forall>(k', t') \<in> set xs. t < t') \<and> (\<forall>(k', t') \<in> set ys. t \<le> t')"
proof (induction resto arbitrary: b)
  case Nil
  obtain bk bt where b: "b = (bk, bt)" by (cases b)
  show ?case unfolding b by (rule decompI [of _ "[]" _ bt "[]"]) simp_all
next
  case (Cons x r)
  obtain bk bt where b: "b = (bk, bt)" by (cases b)
  obtain k1 t1 where x: "x = (k1, t1)" by (cases x)
  show ?case
  proof (cases "t1 < bt")
    case True
    then have ml: "min_loop b (x # r) = min_loop (k1, t1) r" by (simp add: b x)
    from Cons.IH [of "(k1, t1)"] obtain xs t ys where
      d: "(k1, t1) # r = xs @ (min_loop (k1, t1) r, t) # ys"
      and l: "\<forall>(k', t') \<in> set xs. t < t'" and g: "\<forall>(k', t') \<in> set ys. t \<le> t'"
      by blast
    have "t \<le> t1"
    proof (cases xs)
      case Nil
      with d show ?thesis by simp
    next
      case (Cons y xs')
      with d have "(k1, t1) \<in> set xs" by simp
      with l show ?thesis by auto
    qed
    with True have "t < bt" by simp
    with l have l': "\<forall>(k', t') \<in> set ((bk, bt) # xs). t < t'" by simp
    from d have d': "b # x # r = ((bk, bt) # xs) @ (min_loop (k1, t1) r, t) # ys"
      by (simp add: b x)
    show ?thesis unfolding ml by (rule decompI [OF d' l' g])
  next
    case False
    then have ml: "min_loop b (x # r) = min_loop (bk, bt) r" by (simp add: b x)
    from Cons.IH [of "(bk, bt)"] obtain xs t ys where
      d: "(bk, bt) # r = xs @ (min_loop (bk, bt) r, t) # ys"
      and l: "\<forall>(k', t') \<in> set xs. t < t'" and g: "\<forall>(k', t') \<in> set ys. t \<le> t'"
      by blast
    show ?thesis
    proof (cases xs)
      case Nil
      with d have e: "min_loop (bk, bt) r = bk" "t = bt" "ys = r" by auto
      with g False have g': "\<forall>(k', t') \<in> set ((k1, t1) # r). bt \<le> t'" by simp
      have d': "b # x # r = [] @ (min_loop (bk, bt) r, bt) # (k1, t1) # r"
        by (simp add: b x e)
      show ?thesis unfolding ml by (rule decompI [OF d' _ g']) simp
    next
      case (Cons y xs')
      with d have y: "y = (bk, bt)" and r: "r = xs' @ (min_loop (bk, bt) r, t) # ys"
        by auto
      from l Cons y have "t < bt" by simp
      with False have "t < t1" by simp
      with l Cons y have l': "\<forall>(k', t') \<in> set ((bk, bt) # (k1, t1) # xs'). t < t'" by simp
      from r have d': "b # x # r = ((bk, bt) # (k1, t1) # xs') @ (min_loop (bk, bt) r, t) # ys"
        by (simp add: b x)
      show ?thesis unfolding ml by (rule decompI [OF d' l' g])
    qed
  qed
qed

lemma find_primeiro:
  assumes "\<forall>y \<in> set xs. \<not> P y" "P x"
  shows "find P (xs @ x # ys) = Some x"
  using assms by (induction xs) auto

lemma min_uso_recente_espec:
  "min_uso_recente ur =
     (case menor_tempo_primeira ur of None \<Rightarrow> Inl ValueError | Some v \<Rightarrow> Inr v)"
proof (cases ur)
  case Nil
  then show ?thesis by (simp add: min_uso_recente_def menor_tempo_primeira_def)
next
  case (Cons b resto)
  from min_loop_decomp [of b resto] obtain xs t ys where
    d: "ur = xs @ (min_loop b resto, t) # ys"
    and l: "\<forall>(k', t') \<in> set xs. t < t'" and g: "\<forall>(k', t') \<in> set ys. t \<le> t'"
    unfolding Cons by blast
  let ?P = "\<lambda>(k, t). \<forall>(k', t') \<in> set ur. t \<le> t'"
  have "?P (min_loop b resto, t)"
    using l g by (auto simp: d)
  moreover have "\<forall>y \<in> set xs. \<not> ?P y"
    using l by (fastforce simp: d)
  ultimately have "find ?P (xs @ (min_loop b resto, t) # ys) = Some (min_loop b resto, t)"
    by (rule find_primeiro [rotated])
  then have "menor_tempo_primeira ur = Some (min_loop b resto)"
    unfolding menor_tempo_primeira_def d [symmetric] by simp
  then show ?thesis by (simp add: min_uso_recente_def Cons)
qed

lemma find_Some_prop: "find P xs = Some x \<Longrightarrow> x \<in> set xs \<and> P x"
  by (induction xs) (auto split: if_splits)

lemma menor_tempo_primeira_Some:
  assumes "menor_tempo_primeira ur = Some v"
  shows "\<exists>tv. (v, tv) \<in> set ur \<and> (\<forall>(k, t) \<in> set ur. tv \<le> t)"
proof -
  from assms obtain e where
    f: "find (\<lambda>(k, t). \<forall>(k', t') \<in> set ur. t \<le> t') ur = Some e" and v: "v = fst e"
    by (auto simp: menor_tempo_primeira_def)
  obtain k tv where e: "e = (k, tv)" by (cases e)
  from find_Some_prop [OF f]
  have "e \<in> set ur" "(\<lambda>(k, t). \<forall>(k', t') \<in> set ur. t \<le> t') e"
    by simp_all
  with e v show ?thesis by auto
qed

lemma lru_validas:
  assumes "coerente s" "algoritmo s = ''LRU''"
  shows "valida s x \<longleftrightarrow> x \<in> fst ` set (uso_recente s)"
  using assms by (auto simp: coerente_def inv_uso_def)

lemma lru_falta_cheia:
  assumes "coerente s" "dividir_endereco va = (p, off)" "acessar s va = Inr (s', r)"
    and "\<not> valida s p" and "index_None (quadros s) = None" and "algoritmo s = ''LRU''"
  shows "\<exists>v. min_uso_recente (uso_recente s) = Inr v \<and>
           valida s v \<and> \<not> valida s' v \<and> v \<noteq> p \<and> valida s' p \<and>
           uso_recente s' = AList.update p (Suc (clock s)) (AList.delete v (uso_recente s)) \<and>
           quadros s' = (quadros s)[pte_quadro (the (page_table s v)) := Some p] \<and>
           {x. valida s' x} = insert p ({x. valida s x} - {v}) \<and>
           page_faults s' = Suc (page_faults s)"
  using assms(1-4)
proof (cases rule: acessar_falta)
  case (1 s1 q)
  from 1(1) show ?thesis
  proof (cases rule: tratar_page_fault_cases)
    case (livre page_data)
    with assms(5) show ?thesis by simp
  next
    case (fifo v resto e page_data)
    with assms(6) show ?thesis by simp
  next
    case (lru v e page_data)
    from lru(3) have m: "min_uso_recente (uso_recente s) = Inr v" by simp
    from min_uso_recente_mem [OF m] lru_validas [OF assms(1,6)] have vv: "valida s v" by simp
    with assms(4) have ne: "v \<noteq> p" by auto
    from lru(4) have pv: "page_table s v = Some e" by simp
    with 1(2) lru(9) lru(5) assms(6) have pt: "page_table s' =
             (page_table s)(v \<mapsto> e\<lparr>pte_valido := False\<rparr>,
                            p \<mapsto> \<lparr>pte_quadro = pte_quadro e, pte_valido = True\<rparr>)"
      and u: "uso_recente s' = AList.update p (Suc (clock s)) (AList.delete v (uso_recente s))"
      and qs: "quadros s' = (quadros s)[pte_quadro (the (page_table s v)) := Some p]"
      and pf: "page_faults s' = Suc (page_faults s)" by simp_all
    from pt ne have "\<not> valida s' v" "valida s' p" by (simp_all add: valida_def)
    with m vv ne u qs pf validas_troca [OF pt ne] show ?thesis by blast
  qed
qed

lemma lru_toque:
  assumes "coerente s" "algoritmo s = ''LRU''" "dividir_endereco va = (p, off)"
    and "acessar s va = Inr (s', r)"
  shows "\<exists>ur. uso_recente s' = AList.update p (Suc (clock s)) ur"
proof (cases "valida s p")
  case True
  from acessar_sem_falta [OF assms(1,3,4) True] assms(2) show ?thesis by auto
next
  case False
  show ?thesis
  proof (cases "index_None (quadros s)")
    case None
    from lru_falta_cheia [OF assms(1,3,4) False None assms(2)] show ?thesis by blast
  next
    case (Some q)
    from fifo_falta_livre [OF assms(1,3,4) False Some] assms(2) show ?thesis by auto
  qed
qed

lemma lru_carga_passo:
  assumes "coerente s" "algoritmo s = ''LRU''" "dividir_endereco va = (p, off)"
    and "acessar s va = Inr (s', r)" and "p \<notin> fst ` set (uso_recente s)"
    and "index_None (quadros s) = Some q"
  shows "coerente s'" and "algoritmo s' = ''LRU''"
    and "quadros s' = (quadros s)[q := Some p]"
    and "uso_recente s' = AList.update p (Suc (clock s)) (uso_recente s)"
    and "clock s' = Suc (clock s)"
proof -
  from assms(5) lru_validas [OF assms(1,2)] have nv: "\<not> valida s p" by simp
  from coerente_acessar [OF assms(1,4)] show "coerente s'" .
  from acessar_imutaveis [OF assms(4)] assms(2) show "algoritmo s' = ''LRU''" by simp
  from fifo_falta_livre [OF assms(1,3,4) nv assms(6)] assms(2)
  show "quadros s' = (quadros s)[q := Some p]"
    "uso_recente s' = AList.update p (Suc (clock s)) (uso_recente s)"
    by simp_all
  from acessar_relogio [OF assms(4)] show "clock s' = Suc (clock s)" by simp
qed

lemma lru_reuso_passo:
  assumes "coerente s" "algoritmo s = ''LRU''" "dividir_endereco va = (p, off)"
    and "acessar s va = Inr (s', r)" and "p \<in> fst ` set (uso_recente s)"
  shows "coerente s'" and "algoritmo s' = ''LRU''"
    and "quadros s' = quadros s"
    and "uso_recente s' = AList.update p (Suc (clock s)) (uso_recente s)"
    and "clock s' = Suc (clock s)"
proof -
  from assms(5) lru_validas [OF assms(1,2)] have v: "valida s p" by simp
  from coerente_acessar [OF assms(1,4)] show "coerente s'" .
  from acessar_imutaveis [OF assms(4)] assms(2) show "algoritmo s' = ''LRU''" by simp
  from acessar_sem_falta [OF assms(1,3,4) v] assms(2)
  show "quadros s' = quadros s"
    "uso_recente s' = AList.update p (Suc (clock s)) (uso_recente s)"
    by simp_all
  from acessar_relogio [OF assms(4)] show "clock s' = Suc (clock s)" by simp
qed

lemma lru_cenario:
  assumes u: "upper alg = ''LRU''"
    and d: "distinct [p0, p1, p2, p3, p4]"
    and a: "dividir_endereco a0 = (p0, o0)" "dividir_endereco a1 = (p1, o1)"
      "dividir_endereco a2 = (p2, o2)" "dividir_endereco a3 = (p3, o3)"
      "dividir_endereco b0 = (p0, ob)" "dividir_endereco a4 = (p4, o4)"
    and run: "acessar_todos (MemoryManager_init 4 alg store) [a0, a1, a2, a3, b0] = Inr s"
    and step: "acessar s a4 = Inr (s', r)"
  shows "{x. valida s x} = {p0, p1, p2, p3} \<and> index_None (quadros s) = None \<and>
         uso_recente s = [(p0, 5), (p1, 2), (p2, 3), (p3, 4)] \<and>
         min_uso_recente (uso_recente s) = Inr p1 \<and>
         \<not> valida s' p1 \<and> valida s' p0 \<and> {x. valida s' x} = {p0, p2, p3, p4}"
proof -
  define s0 where "s0 = MemoryManager_init 4 alg store"
  have c0: "coerente s0" unfolding s0_def by (rule coerente_init)
  have f0: "algoritmo s0 = ''LRU''" "uso_recente s0 = []" "clock s0 = 0"
    "quadros s0 = [None, None, None, None]"
    by (simp_all add: s0_def MemoryManager_init_def u replicate_4)
  from run obtain s1 s2 s3 s4 r0 r1 r2 r3 r4 where
    st: "acessar s0 a0 = Inr (s1, r0)" "acessar s1 a1 = Inr (s2, r1)"
      "acessar s2 a2 = Inr (s3, r2)" "acessar s3 a3 = Inr (s4, r3)"
      "acessar s4 b0 = Inr (s, r4)"
    unfolding s0_def [symmetric] by (auto split: sum.splits)
  have i0: "index_None (quadros s0) = Some 0" by (simp add: f0)
  have m0: "p0 \<notin> fst ` set (uso_recente s0)" by (simp add: f0)
  note n1 = lru_carga_passo [OF c0 f0(1) a(1) st(1) m0 i0]
  have q1: "uso_recente s1 = [(p0, 1)]" "quadros s1 = [Some p0, None, None, None]"
    "clock s1 = 1"
    using n1(3,4,5) by (simp_all add: f0)
  have i1: "index_None (quadros s1) = Some 1" by (simp add: q1)
  have m1: "p1 \<notin> fst ` set (uso_recente s1)" using d by (auto simp: q1)
  note n2 = lru_carga_passo [OF n1(1,2) a(2) st(2) m1 i1]
  have q2: "uso_recente s2 = [(p0, 1), (p1, 2)]"
    "quadros s2 = [Some p0, Some p1, None, None]" "clock s2 = 2"
    using n2(3,4,5) d by (auto simp: q1)
  have i2: "index_None (quadros s2) = Some 2" by (simp add: q2)
  have m2: "p2 \<notin> fst ` set (uso_recente s2)" using d by (auto simp: q2)
  note n3 = lru_carga_passo [OF n2(1,2) a(3) st(3) m2 i2]
  have q3: "uso_recente s3 = [(p0, 1), (p1, 2), (p2, 3)]"
    "quadros s3 = [Some p0, Some p1, Some p2, None]" "clock s3 = 3"
    using n3(3,4,5) d by (auto simp: q2 numeral_2_eq_2)
  have i3: "index_None (quadros s3) = Some 3" by (simp add: q3 numeral_3_eq_3)
  have m3: "p3 \<notin> fst ` set (uso_recente s3)" using d by (auto simp: q3)
  note n4 = lru_carga_passo [OF n3(1,2) a(4) st(4) m3 i3]
  have q4: "uso_recente s4 = [(p0, 1), (p1, 2), (p2, 3), (p3, 4)]"
    "quadros s4 = [Some p0, Some p1, Some p2, Some p3]" "clock s4 = 4"
    using n4(3,4,5) d by (auto simp: q3 numeral_3_eq_3)
  have m4: "p0 \<in> fst ` set (uso_recente s4)" by (simp add: q4)
  note n5 = lru_reuso_passo [OF n4(1,2) a(5) st(5) m4]
  have q5: "uso_recente s = [(p0, 5), (p1, 2), (p2, 3), (p3, 4)]"
    "quadros s = [Some p0, Some p1, Some p2, Some p3]" "clock s = 5"
    using n5(3,4,5) by (simp_all add: q4)
  have i5: "index_None (quadros s) = None" by (simp add: q5)
  have v5: "{x. valida s x} = {p0, p1, p2, p3}"
    using lru_validas [OF n5(1,2)] by (auto simp: q5)
  then have nv: "\<not> valida s p4" using d by auto
  have mn: "min_uso_recente (uso_recente s) = Inr p1"
    by (simp add: q5 min_uso_recente_def)
  from lru_falta_cheia [OF n5(1) a(6) step nv i5 n5(2)] mn have
    e: "\<not> valida s' p1" "valida s' p4"
      "{x. valida s' x} = insert p4 ({x. valida s x} - {p1})"
    by auto
  from e(3) v5 d have "{x. valida s' x} = {p0, p2, p3, p4}" by auto
  with q5 v5 i5 e mn show ?thesis by auto
qed

lemma lru_outros:
  assumes c: "coerente s" and f: "algoritmo s = ''LRU''" and d: "dividir_endereco va = (p, off)"
    and a: "acessar s va = Inr (s', r)" and x: "x \<noteq> p" "valida s' x"
  shows "valida s x \<and> map_of (uso_recente s') x = map_of (uso_recente s) x"
proof (cases "valida s p")
  case True
  from acessar_sem_falta [OF c d a True] f
  have pt: "page_table s' = page_table s"
    and u: "uso_recente s' = AList.update p (Suc (clock s)) (uso_recente s)" by simp_all
  from valida_page_table [OF pt] x(2) have "valida s x" by simp
  with u x(1) show ?thesis by (simp add: AList.update_conv')
next
  case False
  show ?thesis
  proof (cases "index_None (quadros s)")
    case (Some q)
    from fifo_falta_livre [OF c d a False Some] f
    have v: "{y. valida s' y} = insert p {y. valida s y}"
      and u: "uso_recente s' = AList.update p (Suc (clock s)) (uso_recente s)" by simp_all
    from v x have "valida s x" by auto
    with u x(1) show ?thesis by (simp add: AList.update_conv')
  next
    case None
    from lru_falta_cheia [OF c d a False None f] obtain v where
      v: "{y. valida s' y} = insert p ({y. valida s y} - {v})"
      and u: "uso_recente s' = AList.update p (Suc (clock s)) (AList.delete v (uso_recente s))"
      by blast
    from v x have "valida s x" "x \<noteq> v" by auto
    with u x(1) show ?thesis by (simp add: AList.update_conv')
  qed
qed

lemma lru_tempos_de_ultimo_acesso:
  assumes "coerente s" "algoritmo s = ''LRU''" "clock s = acessos s"
    and "\<forall>x. valida s x \<longrightarrow> map_of (uso_recente s) x = ult x"
    and "ultimos_acessos s ult vas = Inr (s', ult')"
  shows "(\<forall>x. valida s' x \<longrightarrow> map_of (uso_recente s') x = ult' x) \<and>
         acessar_todos s vas = Inr s'"
  using assms
proof (induction vas arbitrary: s ult)
  case Nil
  then show ?case by auto
next
  case (Cons va vas)
  obtain p off where d: "dividir_endereco va = (p, off)" by (cases "dividir_endereco va")
  from Cons.prems(5) obtain s1 r where a: "acessar s va = Inr (s1, r)"
    by (auto split: sum.splits)
  from coerente_acessar [OF Cons.prems(1) a] have c1: "coerente s1" .
  from acessar_imutaveis [OF a] Cons.prems(2) have f1: "algoritmo s1 = ''LRU''" by simp
  from acessar_relogio [OF a] Cons.prems(3) have k1: "clock s1 = acessos s1" by simp
  from lru_toque [OF Cons.prems(1,2) d a] acessar_relogio [OF a]
  have tp: "map_of (uso_recente s1) p = Some (clock s1)"
    by (auto simp: AList.update_conv')
  have i1: "\<forall>x. valida s1 x \<longrightarrow> map_of (uso_recente s1) x = (ult(p \<mapsto> acessos s1)) x"
  proof (intro allI impI)
    fix x assume vx: "valida s1 x"
    show "map_of (uso_recente s1) x = (ult(p \<mapsto> acessos s1)) x"
    proof (cases "x = p")
      case True
      with tp k1 show ?thesis by simp
    next
      case False
      from lru_outros [OF Cons.prems(1,2) d a False vx] Cons.prems(4) False
      show ?thesis by simp
    qed
  qed
  from Cons.prems(5) a d
  have "ultimos_acessos s1 (ult(p \<mapsto> acessos s1)) vas = Inr (s', ult')" by simp
  from Cons.IH [OF c1 f1 k1 i1 this] a show ?case by simp
qed

text \<open>
  Claim C2. Python's \<open>min\<close> over \<open>uso_recente\<close> returns the first key, in insertion order,
  whose timestamp is minimal. Under the LRU policy, in every state reached from a fresh
  \<open>MemoryManager\<close>, the keys of \<open>uso_recente\<close> are exactly the resident pages; every
  successful access, hit or fault, advances the clock by one, stamps the accessed page with
  the new clock and leaves the stamps of the other resident pages as they were; and a fault
  with no free frame evicts that first page of minimal timestamp, resident before and not
  after. With 4 frames, after loading four distinct pages and touching the first one again,
  the fault for a fifth page evicts the second page, not the first. Along any run, the
  timestamp of every resident page is the number of the most recent access to it.
\<close>

theorem lru_vitima:
  "min_uso_recente ur =
     (case menor_tempo_primeira ur of None \<Rightarrow> Inl ValueError | Some v \<Rightarrow> Inr v)
   \<and>
   (acessar_todos (MemoryManager_init n alg store) vas = Inr s \<longrightarrow>
    algoritmo s = ''LRU'' \<longrightarrow> dividir_endereco va = (p, off) \<longrightarrow>
    acessar s va = Inr (s', r) \<longrightarrow>
      fst ` set (uso_recente s) = {x. valida s x} \<and> distinct (map fst (uso_recente s)) \<and>
      clock s' = Suc (clock s) \<and> map_of (uso_recente s') p = Some (clock s') \<and>
      (\<forall>x. x \<noteq> p \<longrightarrow> valida s' x \<longrightarrow>
         map_of (uso_recente s') x = map_of (uso_recente s) x) \<and>
      (\<not> valida s p \<longrightarrow> index_None (quadros s) = None \<longrightarrow>
         (\<exists>v tv. menor_tempo_primeira (uso_recente s) = Some v \<and>
            (v, tv) \<in> set (uso_recente s) \<and> (\<forall>(k, t) \<in> set (uso_recente s). tv \<le> t) \<and>
            valida s v \<and> \<not> valida s' v \<and>
            {x. valida s' x} = insert p ({x. valida s x} - {v}))))
   \<and>
   (upper alg4 = ''LRU'' \<longrightarrow> distinct [p0, p1, p2, p3, p4] \<longrightarrow>
    dividir_endereco a0 = (p0, o0) \<longrightarrow> dividir_endereco a1 = (p1, o1) \<longrightarrow>
    dividir_endereco a2 = (p2, o2) \<longrightarrow> dividir_endereco a3 = (p3, o3) \<longrightarrow>
    dividir_endereco b0 = (p0, ob) \<longrightarrow> dividir_endereco a4 = (p4, o4) \<longrightarrow>
    acessar_todos (MemoryManager_init 4 alg4 store4) [a0, a1, a2, a3, b0] = Inr s4 \<longrightarrow>
    acessar s4 a4 = Inr (s5, r5) \<longrightarrow>
      {x. valida s4 x} = {p0, p1, p2, p3} \<and> index_None (quadros s4) = None \<and>
      \<not> valida s5 p1 \<and> valida s5 p0 \<and> {x. valida s5 x} = {p0, p2, p3, p4})
   \<and>
   (upper algL = ''LRU'' \<longrightarrow>
    ultimos_acessos (MemoryManager_init nL algL storeL) Map.empty vasL = Inr (sL, ult) \<longrightarrow>
      (\<forall>x. valida sL x \<longrightarrow> map_of (uso_recente sL) x = ult x) \<and>
      acessar_todos (MemoryManager_init nL algL storeL) vasL = Inr sL)"
proof (intro conjI impI)
  assume "upper algL = ''LRU''"
    and o: "ultimos_acessos (MemoryManager_init nL algL storeL) Map.empty vasL = Inr (sL, ult)"
  then have "algoritmo (MemoryManager_init nL algL storeL) = ''LRU''"
    and "clock (MemoryManager_init nL algL storeL) = acessos (MemoryManager_init nL algL storeL)"
    and "\<forall>x. valida (MemoryManager_init nL algL storeL) x \<longrightarrow>
           map_of (uso_recente (MemoryManager_init nL algL storeL)) x = Map.empty x"
    by (simp_all add: MemoryManager_init_def valida_def)
  note t = lru_tempos_de_ultimo_acesso [OF coerente_init this o]
  from t show "\<forall>x. valida sL x \<longrightarrow> map_of (uso_recente sL) x = ult x" by blast
  from t show "acessar_todos (MemoryManager_init nL algL storeL) vasL = Inr sL" by blast
next
  show "min_uso_recente ur =
     (case menor_tempo_primeira ur of None \<Rightarrow> Inl ValueError | Some v \<Rightarrow> Inr v)"
    by (rule min_uso_recente_espec)
next
  assume run: "acessar_todos (MemoryManager_init n alg store) vas = Inr s"
    and f: "algoritmo s = ''LRU''" and d: "dividir_endereco va = (p, off)"
    and a: "acessar s va = Inr (s', r)"
  from alcancavel_coerente [OF run] have c: "coerente s" .
  with f show "fst ` set (uso_recente s) = {x. valida s x}" "distinct (map fst (uso_recente s))"
    by (simp_all add: coerente_def inv_uso_def)
  from acessar_relogio [OF a] show k: "clock s' = Suc (clock s)" by simp
  from lru_toque [OF c f d a] k show "map_of (uso_recente s') p = Some (clock s')"
    by (auto simp: AList.update_conv')
  show "\<forall>x. x \<noteq> p \<longrightarrow> valida s' x \<longrightarrow>
         map_of (uso_recente s') x = map_of (uso_recente s) x"
    using lru_outros [OF c f d a] by blast
  {
    assume nv: "\<not> valida s p" and "index_None (quadros s) = None"
    from lru_falta_cheia [OF c d a nv this(2) f] obtain v where
      v: "min_uso_recente (uso_recente s) = Inr v" "valida s v" "\<not> valida s' v"
        "{x. valida s' x} = insert p ({x. valida s x} - {v})"
      by blast
    from v(1) have m: "menor_tempo_primeira (uso_recente s) = Some v"
      by (simp add: min_uso_recente_espec split: option.splits)
    from menor_tempo_primeira_Some [OF m] obtain tv where
      "(v, tv) \<in> set (uso_recente s)" "\<forall>(k, t) \<in> set (uso_recente s). tv \<le> t"
      by blast
    with m v
    show "\<exists>v tv. menor_tempo_primeira (uso_recente s) = Some v \<and>
            (v, tv) \<in> set (uso_recente s) \<and> (\<forall>(k, t) \<in> set (uso_recente s). tv \<le> t) \<and>
            valida s v \<and> \<not> valida s' v \<and>
            {x. valida s' x} = insert p ({x. valida s x} - {v})"
      by blast
  }
next
  assume "upper alg4 = ''LRU''" "distinct [p0, p1, p2, p3, p4]"
    "dividir_endereco a0 = (p0, o0)" "dividir_endereco a1 = (p1, o1)"
    "dividir_endereco a2 = (p2, o2)" "dividir_endereco a3 = (p3, o3)"
    "dividir_endereco b0 = (p0, ob)" "dividir_endereco a4 = (p4, o4)"
    "acessar_todos (MemoryManager_init 4 alg4 store4) [a0, a1, a2, a3, b0] = Inr s4"
    "acessar s4 a4 = Inr (s5, r5)"
  note c = lru_cenario [OF this]
  from c show "{x. valida s4 x} = {p0, p1, p2, p3}" by blast
  from c show "index_None (quadros s4) = None" by blast
  from c show "\<not> valida s5 p1" by blast
  from c show "valida s5 p0" by blast
  from c show "{x. valida s5 x} = {p0, p2, p3, p4}" by blast
qed

theorem lru_vitima_witness:
  "\<exists>s s' r. acessar_todos (MemoryManager_init 4 ''lru'' store_200) [0, 256, 512, 768, 7] = Inr s \<and>
      acessar s 1024 = Inr (s', r) \<and>
      uso_recente s = [(0, 5), (1, 2), (2, 3), (3, 4)] \<and>
      menor_tempo_primeira (uso_recente s) = Some 1 \<and>
      \<not> valida s' 1 \<and> valida s' 0 \<and> {x. valida s' x} = {0, 2, 3, 4} \<and>
      map_of (uso_recente s') 4 = Some 6 \<and>
      (\<exists>ult. ultimos_acessos (MemoryManager_init 4 ''lru'' store_200) Map.empty
                [0, 256, 512, 768, 7] = Inr (s, ult) \<and>
             ult 0 = Some 5 \<and> map_of (uso_recente s) 0 = ult 0)"
proof -
  have u: "upper ''lru'' = ''LRU''" by code_simp
  have "\<exists>s. acessar_todos (MemoryManager_init 4 ''lru'' store_200) [0, 256, 512, 768, 7] = Inr s \<and>
       algoritmo s = ''LRU'' \<and> \<not> valida s 4 \<and> index_None (quadros s) = None \<and>
       uso_recente s = [(0, 5), (1, 2), (2, 3), (3, 4)] \<and> clock s = 5 \<and>
       (\<exists>s' r. acessar s 1024 = Inr (s', r))"
    by (simp add: avalia u replicate_4)
  then obtain s s' r where
    run: "acessar_todos (MemoryManager_init 4 ''lru'' store_200) [0, 256, 512, 768, 7] = Inr s"
    and f: "algoritmo s = ''LRU''" "\<not> valida s 4" "index_None (quadros s) = None"
      "uso_recente s = [(0, 5), (1, 2), (2, 3), (3, 4)]" "clock s = 5"
    and a: "acessar s 1024 = Inr (s', r)"
    by blast
  have d: "dividir_endereco 0 = (0, 0)" "dividir_endereco 256 = (1, 0)"
    "dividir_endereco 512 = (2, 0)" "dividir_endereco 768 = (3, 0)"
    "dividir_endereco 7 = (0, 7)" "dividir_endereco 1024 = (4, 0)"
    by (simp_all add: dividir_endereco_eq)
  have di: "distinct [0, 1, 2, 3, 4 :: int]" by simp
  from lru_vitima [THEN conjunct2, THEN conjunct1, rule_format, OF run f(1) d(6) a]
  have "clock s' = Suc (clock s) \<and> map_of (uso_recente s') 4 = Some (clock s')"
    by simp
  with f(5) have t1: "map_of (uso_recente s') 4 = Some 6" by simp
  from lru_vitima [THEN conjunct1, of "uso_recente s"] f(4)
  have t0: "menor_tempo_primeira (uso_recente s) = Some 1"
    by (simp add: min_uso_recente_def split: option.splits)
  from lru_vitima [THEN conjunct2, THEN conjunct2, THEN conjunct1, rule_format,
      OF u di d run a]
  have t2: "\<not> valida s' 1" "valida s' 0" "{x. valida s' x} = {0, 2, 3, 4}"
    by simp_all
  have "\<exists>sL ult. ultimos_acessos (MemoryManager_init 4 ''lru'' store_200) Map.empty
            [0, 256, 512, 768, 7] = Inr (sL, ult) \<and> ult 0 = Some 5 \<and> valida sL 0"
    by (simp add: avalia u replicate_4)
  then obtain sL ult where
    o: "ultimos_acessos (MemoryManager_init 4 ''lru'' store_200) Map.empty
            [0, 256, 512, 768, 7] = Inr (sL, ult)"
    and l: "ult 0 = Some 5" "valida sL 0"
    by blast
  from lru_vitima [THEN conjunct2, THEN conjunct2, THEN conjunct2, rule_format, OF u o]
  have m: "\<forall>x. valida sL x \<longrightarrow> map_of (uso_recente sL) x = ult x"
    and "acessar_todos (MemoryManager_init 4 ''lru'' store_200) [0, 256, 512, 768, 7] = Inr sL"
    by simp_all
  with run have e: "sL = s" by simp
  from m l(2) have "map_of (uso_recente sL) 0 = ult 0" by blast
  with o l(1) e have
    "\<exists>ult. ultimos_acessos (MemoryManager_init 4 ''lru'' store_200) Map.empty
                [0, 256, 512, 768, 7] = Inr (s, ult) \<and>
           ult 0 = Some 5 \<and> map_of (uso_recente s) 0 = ult 0"
    by blast
  with t0 t1 t2 run a f show ?thesis by blast
qed

section \<open>Where the policy name is checked\<close>

lemma carrega_pagina_erro: "carrega_pagina s p \<noteq> Inl AlgoritmoInvalido"
  by (simp add: carrega_pagina_def Let_def)

lemma instala_pagina_erro: "instala_pagina s q p d \<noteq> Inl AlgoritmoInvalido"
  by (simp add: instala_pagina_def)

lemma invalida_vitima_erro: "invalida_vitima s v \<noteq> Inl AlgoritmoInvalido"
  by (simp add: invalida_vitima_def split: option.splits)

lemma ler_memoria_erro: "ler_memoria s q off \<noteq> Inl AlgoritmoInvalido"
  by (simp add: ler_memoria_def Let_def split: option.splits)

lemma substituicao_fifo_erro: "substituicao_fifo s p \<noteq> Inl AlgoritmoInvalido"
  using carrega_pagina_erro instala_pagina_erro invalida_vitima_erro
  by (auto simp: substituicao_fifo_def split: list.splits sum.splits)

lemma substituicao_lru_erro: "substituicao_lru s p \<noteq> Inl AlgoritmoInvalido"
  using carrega_pagina_erro instala_pagina_erro invalida_vitima_erro
  by (auto simp: substituicao_lru_def min_uso_recente_def Let_def split: list.splits sum.splits)

lemma tratar_page_fault_erro:
  assumes "algoritmo s = ''FIFO'' \<or> algoritmo s = ''LRU''"
  shows "tratar_page_fault s p \<noteq> Inl AlgoritmoInvalido"
  using assms carrega_pagina_erro instala_pagina_erro substituicao_fifo_erro
    substituicao_lru_erro
  by (auto simp: tratar_page_fault_def split: option.splits sum.splits)

lemma acessar_erro:
  assumes "algoritmo s = ''FIFO'' \<or> algoritmo s = ''LRU''"
  shows "acessar s va \<noteq> Inl AlgoritmoInvalido"
proof -
  have "algoritmo ((conta_acesso s)\<lparr>page_faults := page_faults s + 1\<rparr>) = ''FIFO'' \<or>
        algoritmo ((conta_acesso s)\<lparr>page_faults := page_faults s + 1\<rparr>) = ''LRU''"
    using assms by simp
  from tratar_page_fault_erro [OF this]
  have "localiza_quadro (conta_acesso s) p \<noteq> Inl AlgoritmoInvalido" for p
    by (auto simp: localiza_quadro_def split: option.splits sum.splits if_splits)
  with ler_memoria_erro show ?thesis
    by (auto simp: acessar_unfold split: sum.splits)
qed

lemma upper_XYZ: "upper ''XYZ'' = ''XYZ''" by code_simp

text \<open>
  Claim C7 says that constructing a \<open>MemoryManager\<close> with a policy other than FIFO or LRU is
  rejected at construction, so that the invalid-policy exit of \<open>tratar_page_fault\<close> cannot be
  reached. The constructor checks nothing: built with one frame and the policy XYZ, the
  instance exists, serves the first page from the free frame, and reaches the invalid-policy
  exit on the fault for a second page.
\<close>

theorem construtor_aceita_politica_counterexample:
  "algoritmo (MemoryManager_init 1 ''XYZ'' store_200) = ''XYZ'' \<and>
   acessar_todos (MemoryManager_init 1 ''XYZ'' store_200) [0, 256] = Inl AlgoritmoInvalido"
  by (simp add: avalia upper_XYZ)

text \<open>
  Claim C7, as the code has it. The constructor accepts every policy string and stores it
  upper-cased. It is \<open>main\<close> that refuses a policy other than FIFO or LRU, before the
  constructor is called and so before any translation. For an instance built with FIFO or
  LRU in any letter case, and so for every instance \<open>main\<close> builds, no \<open>acessar\<close> call in
  any reachable state ends in the invalid-policy exit.
\<close>

theorem politica_validada_em_main:
  "algoritmo (MemoryManager_init n alg store) = upper alg
   \<and> (upper alg \<notin> {''FIFO'', ''LRU''} \<longrightarrow> main_init n alg store = Inl ArgumentoInvalido)
   \<and> (main_init n alg store = Inr m \<longrightarrow>
        algoritmo m \<in> {''FIFO'', ''LRU''} \<and> acessos m = 0 \<and> page_table m = Map.empty)
   \<and> (acessar_todos (MemoryManager_init n1 alg1 store1) vas1 = Inr s1 \<longrightarrow>
        upper alg1 \<in> {''FIFO'', ''LRU''} \<longrightarrow> acessar s1 va1 \<noteq> Inl AlgoritmoInvalido)
   \<and> (main_init n alg store = Inr m \<longrightarrow> acessar_todos m vas = Inr s \<longrightarrow>
        acessar s va \<noteq> Inl AlgoritmoInvalido)"
proof (intro conjI impI)
  show "algoritmo (MemoryManager_init n alg store) = upper alg"
    by (simp add: MemoryManager_init_def)
next
  assume "upper alg \<notin> {''FIFO'', ''LRU''}"
  then show "main_init n alg store = Inl ArgumentoInvalido"
    by (simp add: main_init_def)
next
  assume m: "main_init n alg store = Inr m"
  then have "upper alg = ''FIFO'' \<or> upper alg = ''LRU''"
    and e: "m = MemoryManager_init n (upper alg) store"
    by (auto simp: main_init_def Let_def split: if_splits)
  then have a: "algoritmo m = ''FIFO'' \<or> algoritmo m = ''LRU''"
    by (auto simp: MemoryManager_init_def upper_FIFO upper_LRU)
  then show "algoritmo m \<in> {''FIFO'', ''LRU''}" by auto
  from e show "acessos m = 0" "page_table m = Map.empty"
    by (simp_all add: MemoryManager_init_def)
  assume "acessar_todos m vas = Inr s"
  from acessar_todos_imutaveis [OF this] a
  have "algoritmo s = ''FIFO'' \<or> algoritmo s = ''LRU''" by simp
  then show "acessar s va \<noteq> Inl AlgoritmoInvalido" by (rule acessar_erro)
next
  assume "acessar_todos (MemoryManager_init n1 alg1 store1) vas1 = Inr s1"
    and "upper alg1 \<in> {''FIFO'', ''LRU''}"
  from acessar_todos_imutaveis [OF this(1)] this(2)
  have "algoritmo s1 = ''FIFO'' \<or> algoritmo s1 = ''LRU''"
    by (auto simp: MemoryManager_init_def)
  then show "acessar s1 va1 \<noteq> Inl AlgoritmoInvalido" by (rule acessar_erro)
qed

theorem politica_validada_em_main_witness:
  "\<exists>m. main_init 128 ''fifo'' store_200 = Inr m \<and> algoritmo m \<in> {''FIFO'', ''LRU''} \<and>
       acessar m 0 \<noteq> Inl AlgoritmoInvalido \<and>
       main_init 128 ''xyz'' store_200 = Inl ArgumentoInvalido"
proof -
  have u: "upper ''fifo'' = ''FIFO''" "upper ''xyz'' = ''XYZ''" by code_simp+
  define m where "m = MemoryManager_init 128 ''FIFO'' store_200"
  have i: "main_init 128 ''fifo'' store_200 = Inr m"
    by (simp add: main_init_def u m_def)
  have r: "acessar_todos m [] = Inr m" by simp
  have x: "upper ''xyz'' \<notin> {''FIFO'', ''LRU''}" by (simp add: u)
  note t = politica_validada_em_main [where n = 128 and store = store_200]
  from t [where alg = "''fifo''" and m = m, THEN conjunct2, THEN conjunct2, THEN conjunct1,
      rule_format, OF i]
  have a: "algoritmo m \<in> {''FIFO'', ''LRU''}" by simp
  from t [where alg = "''fifo''" and m = m and vas = "[]" and s = m and va = 0,
      THEN conjunct2, THEN conjunct2, THEN conjunct2, THEN conjunct2, rule_format, OF i r]
  have b: "acessar m 0 \<noteq> Inl AlgoritmoInvalido" .
  from t [where alg = "''xyz''", THEN conjunct2, THEN conjunct1, rule_format, OF x]
  have c: "main_init 128 ''xyz'' store_200 = Inl ArgumentoInvalido" .
  from i a b c show ?thesis by blast
qed

end
